theory Spec2Isabelle
  imports Main "HOL-Library.Word" "HOL-Library.Multiset"
begin

unbundle bit_operations_syntax

section \<open>Data model of drivers/misc/memscav.c\<close>

type_synonym u64 = "64 word"
type_synonym u32 = "32 word"

text \<open>
  Error codes the driver returns. \<open>Errno rc\<close> is a non-zero return code handed through
  unchanged from a collaborator (\<open>kstrtoull\<close>, \<open>add_memory_driver_managed\<close>).
\<close>

datatype errno = ENOMEM | EINVAL | Errno int

text \<open>\<open>struct range\<close> of linux/range.h: an inclusive interval of physical addresses.\<close>

record ram_range =
  range_start :: u64
  range_end :: u64

text \<open>The fields of \<open>efi_memory_desc_t\<close> that \<open>ram_map_from_efi\<close> reads.\<close>

record efi_memory_desc =
  md_type :: u32
  phys_addr :: u64
  num_pages :: u64

text \<open>
  Calls to collaborators that leave the driver, recorded in program order:
  \<open>region_intersects(start, size, ...)\<close>, \<open>add_memory_driver_managed(nid, phys, size, ...)\<close>,
  the \<open>pr_warn\<close> of a block that could not be recovered (first and last address), the
  \<open>pr_warn\<close> of \<open>disable_unload\<close>, and the \<open>WARN_ON\<close> of \<open>hidden_blocks_purge\<close>.
\<close>

datatype event =
  Region_intersects u64 u64
  | Add_memory int u64 u64
  | Warn_recover u64 u64
  | Warn_unload
  | Warn_on_cnt

text \<open>
  The environment of the driver: the kernel services it calls. None of them is part of
  memscav.c, so each is a parameter.
  \<^item> \<open>block_sz\<close>: \<open>memory_block_size_bytes()\<close>, a power of two;
  \<^item> \<open>page_size\<close>: \<open>PAGE_SIZE\<close>;
  \<^item> \<open>alloc_ok n\<close>: whether the \<open>n\<close>-th allocation request (\<open>kmalloc\<close>, \<open>krealloc\<close>)
    of the driver succeeds;
  \<^item> \<open>region_free a len\<close>: \<open>region_intersects(a, len, IORESOURCE_MEM, IORES_DESC_NONE)
    == REGION_DISJOINT\<close>;
  \<^item> \<open>nid_of\<close>: \<open>memory_add_physaddr_to_nid\<close>;
  \<^item> \<open>add_memory nid phys size\<close>: the return code of \<open>add_memory_driver_managed\<close>;
  \<^item> \<open>module_get\<close>: the result of \<open>try_module_get(THIS_MODULE)\<close>;
  \<^item> \<open>kstrtoull\<close>: the parse of the sysfs buffer, an error code or the number;
  \<^item> \<open>efi_memmap_enabled\<close>: \<open>efi_enabled(EFI_MEMMAP)\<close>; \<open>efi_memmap\<close>: the descriptors
    \<open>for_each_efi_memory_desc\<close> visits, in order;
  \<^item> \<open>fdt_memory\<close>: the device-tree nodes of type "memory" in the order
    \<open>of_find_node_by_type\<close> finds them, each with its "reg" entries (address, size).
\<close>

record env =
  block_sz :: u64
  page_size :: nat
  alloc_ok :: "nat \<Rightarrow> bool"
  region_free :: "u64 \<Rightarrow> u64 \<Rightarrow> bool"
  nid_of :: "u64 \<Rightarrow> int"
  add_memory :: "int \<Rightarrow> u64 \<Rightarrow> u64 \<Rightarrow> int"
  module_get :: bool
  kstrtoull :: "string \<Rightarrow> errno + u64"
  efi_memmap_enabled :: bool
  efi_memmap :: "efi_memory_desc list"
  fdt_memory :: "(u64 \<times> u64) list list"

text \<open>
  The module's global variables. \<open>hidden_blocks\<close> is the linked list, front first, each
  node by its \<open>phys\<close>; \<open>ranges\<close> is the array together with \<open>ranges_len\<close> (its length).
  \<open>nallocs\<close> counts the allocation requests made so far (the index into \<open>alloc_ok\<close>) and
  \<open>trace\<close> is the sequence of collaborator calls: neither is a variable of the C file.
\<close>

record memscav =
  unloadable :: bool
  hidden_blocks :: "u64 list"
  hidden_blocks_cnt :: u32
  ranges :: "ram_range list"
  nallocs :: nat
  trace :: "event list"

text \<open>The state after the static initialisers, before \<open>memscav_init\<close> runs.\<close>

definition memscav_initial :: memscav where
  "memscav_initial =
     \<lparr>unloadable = True, hidden_blocks = [], hidden_blocks_cnt = 0, ranges = [],
      nallocs = 0, trace = []\<rparr>"

section \<open>Kernel macros and helpers used by the driver\<close>

text \<open>
  Modelled from the spec: \<open>ALIGN\<close> and \<open>IS_ALIGNED\<close> (linux/align.h) are not in the source
  files given; the spec calls the first \<open>round_up(range.start, block_size)\<close> for a power
  of two, computed in unsigned 64-bit arithmetic. These are the kernel's definitions.
\<close>

definition ALIGN :: "u64 \<Rightarrow> u64 \<Rightarrow> u64" where
  "ALIGN x a = (x + (a - 1)) AND NOT (a - 1)"

definition IS_ALIGNED :: "u64 \<Rightarrow> u64 \<Rightarrow> bool" where
  "IS_ALIGNED x a = (x AND (a - 1) = 0)"

text \<open>Constants of linux/efi.h that the EFI path uses.\<close>

definition EFI_CONVENTIONAL_MEMORY :: u32 where
  "EFI_CONVENTIONAL_MEMORY = 7"

definition EFI_PAGE_SHIFT :: nat where
  "EFI_PAGE_SHIFT = 12"

section \<open>The hidden block list and the range array\<close>

definition hidden_block_add :: "env \<Rightarrow> u64 \<Rightarrow> memscav \<Rightarrow> (errno + unit) \<times> memscav" where
  "hidden_block_add e phys s =
     (if \<not> alloc_ok e (nallocs s) then (Inl ENOMEM, s\<lparr>nallocs := nallocs s + 1\<rparr>)
      else (Inr (),
            s\<lparr>hidden_blocks := hidden_blocks s @ [phys],
              hidden_blocks_cnt := hidden_blocks_cnt s + 1,
              nallocs := nallocs s + 1\<rparr>))"

text \<open>
  \<open>hidden_block_free(b)\<close> is only ever called on the first entry of the list, so the model
  removes the head.
\<close>

definition hidden_block_free :: "memscav \<Rightarrow> memscav" where
  "hidden_block_free s =
     s\<lparr>hidden_blocks := tl (hidden_blocks s), hidden_blocks_cnt := hidden_blocks_cnt s - 1\<rparr>"

function hidden_blocks_purge :: "memscav \<Rightarrow> memscav" where
  "hidden_blocks_purge s =
     (case hidden_blocks s of
        [] \<Rightarrow> (if hidden_blocks_cnt s \<noteq> 0 then s\<lparr>trace := trace s @ [Warn_on_cnt]\<rparr> else s)
      | b # rest \<Rightarrow> hidden_blocks_purge (hidden_block_free s))"
  by pat_completeness auto
termination
  by (relation "measure (\<lambda>s. length (hidden_blocks s))") (auto simp: hidden_block_free_def)

definition ram_map_add :: "env \<Rightarrow> u64 \<Rightarrow> u64 \<Rightarrow> memscav \<Rightarrow> (errno + unit) \<times> memscav" where
  "ram_map_add e base sz s =
     (if \<not> alloc_ok e (nallocs s) then (Inl ENOMEM, s\<lparr>nallocs := nallocs s + 1\<rparr>)
      else (Inr (),
            s\<lparr>ranges := ranges s @ [\<lparr>range_start = base, range_end = base + sz - 1\<rparr>],
              nallocs := nallocs s + 1\<rparr>))"

definition ram_map_free :: "memscav \<Rightarrow> memscav" where
  "ram_map_free s = s\<lparr>ranges := []\<rparr>"

definition disable_unload :: "env \<Rightarrow> memscav \<Rightarrow> memscav" where
  "disable_unload e s =
     (if \<not> unloadable s then s
      else if \<not> module_get e then s\<lparr>trace := trace s @ [Warn_unload]\<rparr>
      else s\<lparr>unloadable := False\<rparr>)"

section \<open>Building the range map\<close>

definition cmp_range :: "ram_range \<Rightarrow> ram_range \<Rightarrow> int" where
  "cmp_range r1 r2 =
     (if range_start r1 < range_start r2 then -1
      else if range_start r1 > range_start r2 then 1
      else 0)"

text \<open>
  Modelled from the spec: \<open>sort\<close> (lib/sort.c) is not in the source files given. The spec
  says both paths "sort the resulting collection ascending by start"; the model inserts
  each element before the first one that \<open>cmp_range\<close> does not put below it.
\<close>

fun sort_insert :: "ram_range \<Rightarrow> ram_range list \<Rightarrow> ram_range list" where
  "sort_insert r [] = [r]"
| "sort_insert r (x # xs) = (if cmp_range x r < 0 then x # sort_insert r xs else r # x # xs)"

fun sort_ranges :: "ram_range list \<Rightarrow> ram_range list" where
  "sort_ranges [] = []"
| "sort_ranges (r # rs) = sort_insert r (sort_ranges rs)"

fun ram_map_from_efi_loop :: "env \<Rightarrow> efi_memory_desc list \<Rightarrow> memscav \<Rightarrow> (errno + unit) \<times> memscav" where
  "ram_map_from_efi_loop e [] s = (Inr (), s)"
| "ram_map_from_efi_loop e (md # mds) s =
     (if md_type md \<noteq> EFI_CONVENTIONAL_MEMORY then ram_map_from_efi_loop e mds s
      else case ram_map_add e (phys_addr md) (push_bit EFI_PAGE_SHIFT (num_pages md)) s of
             (Inl rc, s1) \<Rightarrow> (Inl rc, ram_map_free s1)
           | (Inr u, s1) \<Rightarrow> ram_map_from_efi_loop e mds s1)"

definition ram_map_from_efi :: "env \<Rightarrow> memscav \<Rightarrow> (errno + unit) \<times> memscav" where
  "ram_map_from_efi e s =
     (if \<not> efi_memmap_enabled e then (Inl EINVAL, s)
      else case ram_map_from_efi_loop e (efi_memmap e) s of
             (Inl rc, s1) \<Rightarrow> (Inl rc, s1)
           | (Inr u, s1) \<Rightarrow> (Inr (), s1\<lparr>ranges := sort_ranges (ranges s1)\<rparr>))"

text \<open>
  \<open>of_property_read_reg(np, i, &address, &size)\<close> succeeds exactly for the indices of the
  node's "reg" entries. The inner \<open>for\<close> loop of \<open>ram_map_from_fdt\<close> therefore visits the
  entries of a node in order and leaves at the first index past them.
\<close>

definition of_property_read_reg :: "(u64 \<times> u64) list \<Rightarrow> nat \<Rightarrow> errno + (u64 \<times> u64)" where
  "of_property_read_reg np i = (if i < length np then Inr (np ! i) else Inl EINVAL)"

function ram_map_from_fdt_node ::
  "env \<Rightarrow> (u64 \<times> u64) list \<Rightarrow> nat \<Rightarrow> memscav \<Rightarrow> (errno + unit) \<times> memscav" where
  "ram_map_from_fdt_node e np i s =
     (case of_property_read_reg np i of
        Inl err \<Rightarrow> (Inr (), s)
      | Inr (address, sz) \<Rightarrow>
          (case ram_map_add e address sz s of
             (Inl rc, s1) \<Rightarrow> (Inl rc, ram_map_free s1)
           | (Inr u, s1) \<Rightarrow> ram_map_from_fdt_node e np (i + 1) s1))"
  by pat_completeness auto
termination
  by (relation "measure (\<lambda>(e, np, i, s). length np - i)")
     (auto simp: of_property_read_reg_def split: if_splits)

fun ram_map_from_fdt_loop :: "env \<Rightarrow> (u64 \<times> u64) list list \<Rightarrow> memscav \<Rightarrow> (errno + unit) \<times> memscav" where
  "ram_map_from_fdt_loop e [] s = (Inr (), s)"
| "ram_map_from_fdt_loop e (np # nps) s =
     (case ram_map_from_fdt_node e np 0 s of
        (Inl rc, s1) \<Rightarrow> (Inl rc, s1)
      | (Inr u, s1) \<Rightarrow> ram_map_from_fdt_loop e nps s1)"

definition ram_map_from_fdt :: "env \<Rightarrow> memscav \<Rightarrow> (errno + unit) \<times> memscav" where
  "ram_map_from_fdt e s =
     (case ram_map_from_fdt_loop e (fdt_memory e) s of
        (Inl rc, s1) \<Rightarrow> (Inl rc, s1)
      | (Inr u, s1) \<Rightarrow> (Inr (), s1\<lparr>ranges := sort_ranges (ranges s1)\<rparr>))"

section \<open>Scanning for hidden blocks\<close>

text \<open>
  The inner \<open>for\<close> loop of \<open>find_hidden_blocks\<close> for one range, from the current \<open>start\<close>.
  All arithmetic is unsigned 64-bit, as in the source; the loop need not terminate, so
  not returning is \<open>None\<close>. \<open>Inl rc\<close> is the \<open>goto out\<close>.
\<close>

partial_function (option) find_hidden_blocks_range ::
  "env \<Rightarrow> u64 \<Rightarrow> u64 \<Rightarrow> memscav \<Rightarrow> ((errno + unit) \<times> memscav) option" where
  "find_hidden_blocks_range e rend start s =
     (if start + block_sz e < rend then
        (let s1 = s\<lparr>trace := trace s @ [Region_intersects start (block_sz e)]\<rparr> in
         if \<not> region_free e start (block_sz e) then
           find_hidden_blocks_range e rend (start + block_sz e) s1
         else
           (case hidden_block_add e start s1 of
              (Inl rc, s2) \<Rightarrow> Some (Inl rc, s2)
            | (Inr u, s2) \<Rightarrow> find_hidden_blocks_range e rend (start + block_sz e) s2))
      else Some (Inr (), s))"

declare find_hidden_blocks_range.simps [code]

fun find_hidden_blocks_loop ::
  "env \<Rightarrow> ram_range list \<Rightarrow> memscav \<Rightarrow> ((errno + unit) \<times> memscav) option" where
  "find_hidden_blocks_loop e [] s = Some (Inr (), s)"
| "find_hidden_blocks_loop e (r # rs) s =
     (case find_hidden_blocks_range e (range_end r) (ALIGN (range_start r) (block_sz e)) s of
        None \<Rightarrow> None
      | Some (Inl rc, s1) \<Rightarrow> Some (Inl rc, s1)
      | Some (Inr u, s1) \<Rightarrow> find_hidden_blocks_loop e rs s1)"

definition find_hidden_blocks :: "env \<Rightarrow> memscav \<Rightarrow> ((errno + unit) \<times> memscav) option" where
  "find_hidden_blocks e s =
     (case find_hidden_blocks_loop e (ranges s) s of
        None \<Rightarrow> None
      | Some (Inl rc, s1) \<Rightarrow> Some (Inl rc, hidden_blocks_purge s1)
      | Some (Inr u, s1) \<Rightarrow> Some (Inr (), s1))"

section \<open>Scavenging\<close>

text \<open>
  The \<open>for\<close> loop of \<open>scavenge_store\<close>: \<open>sz\<close> is the loop variable \<open>size\<close>, the result is its
  value when the loop is left, with the state. The node is unlinked with \<open>list_del\<close>
  directly; \<open>hidden_blocks_cnt\<close> is not touched.
\<close>

function scavenge_loop :: "env \<Rightarrow> u64 \<Rightarrow> memscav \<Rightarrow> u64 \<times> memscav" where
  "scavenge_loop e sz s =
     (if sz \<ge> block_sz e then
        (case hidden_blocks s of
           [] \<Rightarrow> (sz, s)
         | phys # rest \<Rightarrow>
             (let nid = nid_of e phys;
                  rc = add_memory e nid phys (block_sz e);
                  s1 = s\<lparr>trace := trace s @ [Add_memory nid phys (block_sz e)]\<rparr>;
                  s2 = (if rc \<noteq> 0
                        then s1\<lparr>trace := trace s1 @ [Warn_recover phys (phys + block_sz e - 1)]\<rparr>
                        else s1);
                  s3 = s2\<lparr>hidden_blocks := rest\<rparr>
              in scavenge_loop e (sz - block_sz e) s3))
      else (sz, s))"
  by pat_completeness auto
termination
  by (relation "measure (\<lambda>(e, sz, s). length (hidden_blocks s))") auto

text \<open>
  \<open>scavenge_store\<close> returns \<open>count\<close>, the length of the buffer written to the attribute,
  or a negative error code.
\<close>

definition scavenge_store :: "env \<Rightarrow> string \<Rightarrow> memscav \<Rightarrow> (errno + nat) \<times> memscav" where
  "scavenge_store e buf s =
     (case kstrtoull e buf of
        Inl rc \<Rightarrow> (Inl rc, s)
      | Inr sz \<Rightarrow>
          if sz = 0 \<or> sz mod block_sz e \<noteq> 0 then (Inl EINVAL, s)
          else
            (let total = sz;
                 (sz', s1) = scavenge_loop e sz s;
                 s2 = (if total > sz' then disable_unload e s1 else s1)
             in (Inr (length buf), s2)))"

text \<open>\<open>probe_store\<close>, compiled with \<open>CONFIG_MEMSCAV_DEBUG\<close>.\<close>

definition probe_store :: "env \<Rightarrow> string \<Rightarrow> memscav \<Rightarrow> (errno + nat) \<times> memscav" where
  "probe_store e buf s =
     (case kstrtoull e buf of
        Inl rc \<Rightarrow> (Inl rc, s)
      | Inr addr \<Rightarrow>
          if \<not> IS_ALIGNED addr (block_sz e) then (Inl EINVAL, s)
          else
            (let nid = nid_of e addr;
                 rc = add_memory e nid addr (block_sz e);
                 s1 = s\<lparr>trace := trace s @ [Add_memory nid addr (block_sz e)]\<rparr>
             in if rc \<noteq> 0 then (Inl (Errno rc), s1)
                else (Inr (length buf), disable_unload e s1)))"

section \<open>The sysfs reports\<close>

text \<open>
  Modelled from the spec: \<open>vsnprintf\<close> and \<open>sysfs_emit_at\<close> are not in the source files
  given. The spec's example line is \<open>0x4000-0x7fff (0x4000)\<close>: the conversion \<open>%#llx\<close> is
  \<open>0x\<close> followed by the lower-case hexadecimal digits without leading zeros, and a
  report is "truncated if it would exceed a fixed maximum output size". \<open>sysfs_emit_at\<close>
  writes at offset \<open>at\<close> of a buffer of \<open>PAGE_SIZE\<close> bytes, keeps one byte for the
  terminating NUL and returns the number of characters written; the buffer is modelled
  by the characters written so far, so that \<open>count\<close> is its length.
\<close>

definition hex_digit :: "nat \<Rightarrow> char" where
  "hex_digit d = ''0123456789abcdef'' ! d"

fun hex_of_nat :: "nat \<Rightarrow> string" where
  "hex_of_nat n = (if n < 16 then [hex_digit n] else hex_of_nat (n div 16) @ [hex_digit (n mod 16)])"

declare hex_of_nat.simps [simp del]

definition fmt_llx :: "u64 \<Rightarrow> string" where
  "fmt_llx x = ''0x'' @ hex_of_nat (unat x)"

text \<open>The format string \<open>"%#llx-%#llx (%#llx)\n"\<close> of both reports.\<close>

definition fmt_line :: "u64 \<Rightarrow> u64 \<Rightarrow> u64 \<Rightarrow> string" where
  "fmt_line a b c = fmt_llx a @ ''-'' @ fmt_llx b @ '' ('' @ fmt_llx c @ '')'' @ [CHR 0x0A]"

definition sysfs_emit_at :: "nat \<Rightarrow> string \<Rightarrow> string \<Rightarrow> string" where
  "sysfs_emit_at pg buf txt =
     (if pg \<le> length buf then buf else buf @ take (pg - length buf - 1) txt)"

text \<open>\<open>range_len\<close> of linux/range.h.\<close>

definition range_len :: "ram_range \<Rightarrow> u64" where
  "range_len r = range_end r - range_start r + 1"

fun ranges_show_loop :: "env \<Rightarrow> ram_range list \<Rightarrow> string \<Rightarrow> string" where
  "ranges_show_loop e [] buf = buf"
| "ranges_show_loop e (r # rs) buf =
     (if page_size e > length buf then
        ranges_show_loop e rs
          (sysfs_emit_at (page_size e) buf (fmt_line (range_start r) (range_end r) (range_len r)))
      else buf)"

definition ranges_show :: "env \<Rightarrow> memscav \<Rightarrow> string" where
  "ranges_show e s = ranges_show_loop e (ranges s) []"



section \<open>The attributes of the sysfs group\<close>

text \<open>
  The entries of \<open>memscav_sysfs_entries\<close>: a write to \<open>probe\<close> or \<open>scavenge\<close>, a read of
  \<open>ranges\<close> or \<open>hidden_blocks\<close>. \<open>sysfs_op\<close> is the state after one access; the two
  reads return text and write no variable of the module. A run of the module after
  initialisation is a sequence of accesses, each in the environment of its time.
\<close>

datatype request = Probe string | Scavenge string | Show_ranges | Show_hidden_blocks

fun sysfs_op :: "env \<times> request \<Rightarrow> memscav \<Rightarrow> memscav" where
  "sysfs_op (e, Probe buf) s = snd (probe_store e buf s)"
| "sysfs_op (e, Scavenge buf) s = snd (scavenge_store e buf s)"
| "sysfs_op (e, Show_ranges) s = s"
| "sysfs_op (e, Show_hidden_blocks) s = s"

definition sysfs_run :: "(env \<times> request) list \<Rightarrow> memscav \<Rightarrow> memscav" where
  "sysfs_run ops s = fold sysfs_op ops s"

section \<open>Reading the trace\<close>

text \<open>
  The blocks a scavenge attempted are the addresses handed to
  \<open>add_memory_driver_managed\<close>, the ones that failed are those warned about, and the
  addresses the scanner queried are those handed to \<open>region_intersects\<close>.
\<close>

fun attempted :: "event list \<Rightarrow> u64 list" where
  "attempted [] = []"
| "attempted (Add_memory nid phys len # tr) = phys # attempted tr"
| "attempted (ev # tr) = attempted tr"

fun failed :: "event list \<Rightarrow> u64 list" where
  "failed [] = []"
| "failed (Warn_recover a b # tr) = a # failed tr"
| "failed (ev # tr) = failed tr"

fun queried :: "event list \<Rightarrow> u64 list" where
  "queried [] = []"
| "queried (Region_intersects a len # tr) = a # queried tr"
| "queried (ev # tr) = queried tr"

text \<open>
  An allocation request failed between two states: one of the requests numbered from
  \<open>nallocs s\<close> up to, not including, \<open>nallocs s'\<close> was refused.
\<close>

definition alloc_failed :: "env \<Rightarrow> memscav \<Rightarrow> memscav \<Rightarrow> bool" where
  "alloc_failed e s s' = list_ex (\<lambda>i. \<not> alloc_ok e i) [nallocs s ..< nallocs s']"

text \<open>
  A block of \<open>len\<close> bytes at \<open>a\<close> lies inside a range: it starts at or after the range's
  start and its last byte is at or before the range's end, as numbers (no wrap-around).
\<close>

definition block_inside :: "u64 \<Rightarrow> ram_range \<Rightarrow> u64 \<Rightarrow> bool" where
  "block_inside len r a =
     (unat (range_start r) \<le> unat a \<and> unat a + unat len \<le> unat (range_end r) + 1)"

section \<open>The report as the specification words it\<close>





text \<open>The list of \<open>k\<close> address-contiguous blocks that starts at \<open>a\<close>.\<close>

fun contiguous :: "u64 \<Rightarrow> u64 \<Rightarrow> nat \<Rightarrow> u64 list" where
  "contiguous bsz a 0 = []"
| "contiguous bsz a (Suc k) = a # contiguous bsz (a + bsz) k"

section \<open>The scenario of the specification\<close>

text \<open>
  Block size \<open>0x1000\<close>; the resource tracker knows \<open>[0x0, 0xFFF]\<close> and nothing else, so a
  block is disjoint from it exactly when it starts above \<open>0xFFF\<close>; every allocation and
  every registration succeeds. The EFI memory map (with one descriptor that is not
  conventional memory) and the device tree both declare the two ranges of the scenario,
  out of order; \<open>scenario_map\<close> is the range map built from either.
\<close>

definition scenario_env :: env where
  "scenario_env =
     \<lparr>block_sz = 0x1000, page_size = 4096, alloc_ok = (\<lambda>n. True),
      region_free = (\<lambda>a len. 0xFFF < a), nid_of = (\<lambda>a. 0),
      add_memory = (\<lambda>nid a len. 0), module_get = True,
      kstrtoull = (\<lambda>buf. if buf = ''0x1000'' then Inr 0x1000
                          else if buf = ''0x1800'' then Inr 0x1800
                          else if buf = ''0x2000'' then Inr 0x2000
                          else if buf = ''0x5000'' then Inr 0x5000
                          else Inl EINVAL),
      efi_memmap_enabled = True,
      efi_memmap = [\<lparr>md_type = 7, phys_addr = 0x4000, num_pages = 4\<rparr>,
                    \<lparr>md_type = 0, phys_addr = 0x1000, num_pages = 3\<rparr>,
                    \<lparr>md_type = 7, phys_addr = 0x0, num_pages = 1\<rparr>],
      fdt_memory = [[(0x4000, 0x4000)], [(0x0, 0x1000)]]\<rparr>"

definition scenario_map :: memscav where
  "scenario_map =
     memscav_initial\<lparr>ranges := [\<lparr>range_start = 0x0, range_end = 0xFFF\<rparr>,
                                \<lparr>range_start = 0x4000, range_end = 0x7FFF\<rparr>]\<rparr>"

text \<open>The four hidden blocks the specification expects of the scenario.\<close>

definition scenario_blocks :: memscav where
  "scenario_blocks =
     scenario_map\<lparr>hidden_blocks := [0x4000, 0x5000, 0x6000, 0x7000], hidden_blocks_cnt := 4\<rparr>"

section \<open>Auxiliary functions for the statements about scavenging\<close>

text \<open>
  The collaborator calls one pass of the scavenge loop makes for a list of popped blocks:
  the registration of each block, followed by the warning when it failed.
\<close>

fun scavenge_events :: "env \<Rightarrow> u64 list \<Rightarrow> event list" where
  "scavenge_events e [] = []"
| "scavenge_events e (phys # rest) =
     Add_memory (nid_of e phys) phys (block_sz e) #
     (if add_memory e (nid_of e phys) phys (block_sz e) \<noteq> 0
      then [Warn_recover phys (phys + block_sz e - 1)] else []) @ scavenge_events e rest"

text \<open>
  The number of blocks the loop pops: as many as the request holds block sizes, and no
  more than the list has.
\<close>

definition scavenge_pops :: "env \<Rightarrow> u64 \<Rightarrow> memscav \<Rightarrow> nat" where
  "scavenge_pops e sz s = min (unat sz div unat (block_sz e)) (length (hidden_blocks s))"

section \<open>Auxiliary functions for the statements about the range map and the scan\<close>

text \<open>
  The provider entries the builder keeps and the range each is mapped to: an EFI
  descriptor counts when it is conventional memory, every "reg" pair of a memory node
  counts; the range is \<open>[base, base + size - 1]\<close> in 64-bit arithmetic.
\<close>

definition efi_conventional :: "efi_memory_desc \<Rightarrow> bool" where
  "efi_conventional md = (md_type md = EFI_CONVENTIONAL_MEMORY)"

definition efi_range :: "efi_memory_desc \<Rightarrow> ram_range" where
  "efi_range md =
     \<lparr>range_start = phys_addr md,
      range_end = phys_addr md + push_bit EFI_PAGE_SHIFT (num_pages md) - 1\<rparr>"

definition fdt_range :: "u64 \<times> u64 \<Rightarrow> ram_range" where
  "fdt_range reg = \<lparr>range_start = fst reg, range_end = fst reg + snd reg - 1\<rparr>"

text \<open>
  A range far enough below the top of the address space that neither \<open>ALIGN\<close> nor the
  loop bound \<open>start + block_sz\<close> of the scanner wraps around: its start is at most
  \<open>2 ^ 64\<close> minus two blocks and its end at most \<open>2 ^ 64\<close> minus one block.
\<close>

definition range_no_wrap :: "u64 \<Rightarrow> ram_range \<Rightarrow> bool" where
  "range_no_wrap bsz r =
     (unat (range_start r) + 2 * unat bsz \<le> 2 ^ 64 \<and> unat (range_end r) + unat bsz \<le> 2 ^ 64)"

text \<open>
  What holds of a run from \<open>s\<close> that ends with \<open>out\<close>: the result is success and no
  allocation failed, or it is \<open>-ENOMEM\<close> and one did; the range array is untouched.
\<close>

definition alloc_outcome :: "env \<Rightarrow> memscav \<Rightarrow> (errno + unit) \<times> memscav \<Rightarrow> bool" where
  "alloc_outcome e s out =
     (case out of (res, s') \<Rightarrow>
        nallocs s \<le> nallocs s' \<and> ranges s' = ranges s \<and>
        (res = Inr () \<and> \<not> alloc_failed e s s' \<or> res = Inl ENOMEM \<and> alloc_failed e s s'))"

text \<open>
  What holds of a run of the per-range loop from \<open>start\<close> that ends with \<open>out\<close>: the
  addresses queried and the blocks appended since \<open>s\<close>, every one of them at or after
  \<open>start\<close> and with \<open>a + block_sz\<close> below the range's end.
\<close>

definition range_scan_ok ::
  "env \<Rightarrow> u64 \<Rightarrow> u64 \<Rightarrow> memscav \<Rightarrow> (errno + unit) \<times> memscav \<Rightarrow> bool" where
  "range_scan_ok e rend start s out =
     (case out of (res, s') \<Rightarrow>
        \<exists>qs bl. queried (trace s') = queried (trace s) @ qs \<and>
          hidden_blocks s' = hidden_blocks s @ bl \<and>
          set bl \<subseteq> set qs \<and>
          list_all (\<lambda>a. unat start \<le> unat a \<and> unat a + unat (block_sz e) < unat rend) qs)"

text \<open>
  What holds of a run of a builder loop from \<open>s\<close> that ends with \<open>out\<close>, where \<open>new\<close> are
  the ranges of the entries the loop visits.
\<close>

definition build_outcome :: "env \<Rightarrow> memscav \<Rightarrow> ram_range list \<Rightarrow> (errno + unit) \<times> memscav \<Rightarrow> bool" where
  "build_outcome e s new out =
     (case out of (res, s') \<Rightarrow>
        nallocs s \<le> nallocs s' \<and> hidden_blocks s' = hidden_blocks s \<and>
        (res = Inr () \<and> \<not> alloc_failed e s s' \<and> ranges s' = ranges s @ new \<or>
         res = Inl ENOMEM \<and> alloc_failed e s s' \<and> ranges s' = []))"

section \<open>Evaluating the scenario\<close>

lemmas scenario_defs = scenario_env_def scenario_map_def scenario_blocks_def memscav_initial_def

text \<open>
  C1. The scanner steps from the aligned start by the block size and appends every
  candidate the tracker reports free, but its loop condition is
  \<open>start + block_sz < ranges[i].end\<close>, not \<open>start + block_sz \<le> ranges[i].end + 1\<close>: on the
  range map \<open>[(0x0, 0xFFF), (0x4000, 0x7FFF)]\<close> with block size \<open>0x1000\<close> and only
  \<open>[0x0, 0xFFF]\<close> tracked, the scan succeeds with the hidden blocks \<open>0x4000\<close>, \<open>0x5000\<close>
  and \<open>0x6000\<close>; the block at \<open>0x7000\<close>, which fits the range exactly, is not found.
\<close>

theorem find_hidden_blocks_scenario:
  "map_option (\<lambda>(r, s). (r, hidden_blocks s)) (find_hidden_blocks scenario_env scenario_map)
     = Some (Inr (), [0x4000, 0x5000, 0x6000])"
  by (simp add: scenario_defs find_hidden_blocks_def ALIGN_def find_hidden_blocks_range.simps
      hidden_block_add_def)

text \<open>
  C10. Adding a block during the scan keeps \<open>hidden_blocks_cnt\<close> equal to the length of
  the list, but \<open>scavenge_store\<close> unlinks nodes with \<open>list_del\<close> and leaves the counter
  alone: after the scan of the scenario the list has three blocks and the counter is 3;
  after scavenging \<open>0x1000\<close> bytes the list has two blocks and the counter is still 3.
\<close>

theorem scavenge_store_cnt_scenario:
  "(case find_hidden_blocks scenario_env scenario_map of
      None \<Rightarrow> False
    | Some (r, s1) \<Rightarrow>
        (case scavenge_store scenario_env ''0x1000'' s1 of
           (r2, s2) \<Rightarrow>
             hidden_blocks s1 = [0x4000, 0x5000, 0x6000] \<and> hidden_blocks_cnt s1 = 3 \<and>
             r2 = Inr 6 \<and>
             hidden_blocks s2 = [0x5000, 0x6000] \<and> hidden_blocks_cnt s2 = 3))"
  by (simp add: scenario_defs find_hidden_blocks_def ALIGN_def find_hidden_blocks_range.simps
      hidden_block_add_def scavenge_store_def disable_unload_def)

section \<open>Scavenging: validation\<close>

text \<open>
  C4. A scavenge request whose parsed size is zero or not an exact multiple of the block
  size fails with \<open>-EINVAL\<close> and changes nothing: the state returned is the state given
  (the hidden block list and \<open>unloadable\<close> included).
\<close>

theorem scavenge_store_invalid_size:
  assumes "kstrtoull e buf = Inr sz"
    and "block_sz e \<noteq> 0"
    and "sz = 0 \<or> sz mod block_sz e \<noteq> 0"
  shows "scavenge_store e buf s = (Inl EINVAL, s)"
  using assms by (auto simp: scavenge_store_def)

theorem scavenge_store_invalid_size_witness:
  "scavenge_store scenario_env ''0x1800'' scenario_blocks = (Inl EINVAL, scenario_blocks)
   \<and> unloadable (snd (scavenge_store scenario_env ''0x1800'' scenario_blocks))
   \<and> hidden_blocks (snd (scavenge_store scenario_env ''0x1800'' scenario_blocks))
       = [0x4000, 0x5000, 0x6000, 0x7000]"
proof -
  have p: "kstrtoull scenario_env ''0x1800'' = Inr 0x1800"
    by (simp add: scenario_defs)
  have b: "block_sz scenario_env \<noteq> 0"
    by (simp add: scenario_defs)
  have m: "(0x1800 :: u64) = 0 \<or> (0x1800 :: u64) mod block_sz scenario_env \<noteq> 0"
    by (simp add: scenario_defs)
  have "scavenge_store scenario_env ''0x1800'' scenario_blocks = (Inl EINVAL, scenario_blocks)"
    by (rule scavenge_store_invalid_size [OF p b m])
  then show ?thesis
    by (simp add: scenario_defs)
qed

section \<open>The scavenge loop\<close>

declare scavenge_loop.simps [simp del]

lemma scavenge_loop_result:
  assumes "block_sz e \<noteq> 0"
  shows "scavenge_loop e sz s =
      (sz - of_nat (scavenge_pops e sz s) * block_sz e,
       s\<lparr>hidden_blocks := drop (scavenge_pops e sz s) (hidden_blocks s),
         trace := trace s @ scavenge_events e (take (scavenge_pops e sz s) (hidden_blocks s))\<rparr>)"
  using assms
proof (induction e sz s rule: scavenge_loop.induct)
  case (1 e sz s)
  have bpos: "0 < unat (block_sz e)"
    using 1(2) by (simp add: unat_gt_0)
  show ?case
  proof (cases "block_sz e \<le> sz")
    case False
    then have "unat sz < unat (block_sz e)"
      by (simp add: word_less_nat_alt not_le)
    then have "scavenge_pops e sz s = 0"
      by (simp add: scavenge_pops_def)
    with False show ?thesis
      by (subst scavenge_loop.simps) simp
  next
    case ge: True
    then have le: "unat (block_sz e) \<le> unat sz"
      by (simp add: word_le_nat_alt)
    show ?thesis
    proof (cases "hidden_blocks s")
      case Nil
      then have "scavenge_pops e sz s = 0"
        by (simp add: scavenge_pops_def)
      with ge Nil show ?thesis
        by (subst scavenge_loop.simps) simp
    next
      case (Cons phys rest)
      define s1 where "s1 = s\<lparr>trace := trace s @ [Add_memory (nid_of e phys) phys (block_sz e)]\<rparr>"
      define s2 where "s2 = (if add_memory e (nid_of e phys) phys (block_sz e) \<noteq> 0
                        then s1\<lparr>trace := trace s1 @ [Warn_recover phys (phys + block_sz e - 1)]\<rparr>
                        else s1)"
      define s3 where "s3 = s2\<lparr>hidden_blocks := rest\<rparr>"
      have step: "scavenge_loop e sz s = scavenge_loop e (sz - block_sz e) s3"
        using ge Cons by (subst scavenge_loop.simps) (simp add: s3_def s2_def s1_def Let_def)
      have un: "unat (sz - block_sz e) = unat sz - unat (block_sz e)"
        using ge by (simp add: unat_sub)
      have dv: "unat sz div unat (block_sz e) = Suc ((unat sz - unat (block_sz e)) div unat (block_sz e))"
        using le bpos by (simp add: le_div_geq)
      have pops: "scavenge_pops e sz s = Suc (scavenge_pops e (sz - block_sz e) s3)"
        by (simp add: scavenge_pops_def un dv Cons s3_def s2_def s1_def)
      have ih: "scavenge_loop e (sz - block_sz e) s3 =
         (sz - block_sz e - of_nat (scavenge_pops e (sz - block_sz e) s3) * block_sz e,
          s3\<lparr>hidden_blocks := drop (scavenge_pops e (sz - block_sz e) s3) (hidden_blocks s3),
         trace := trace s3 @ scavenge_events e (take (scavenge_pops e (sz - block_sz e) s3) (hidden_blocks s3))\<rparr>)"
        unfolding s3_def s2_def s1_def
        by (rule "1.IH" [OF ge Cons refl refl refl refl refl "1.prems"])
      have s3_simps: "hidden_blocks s3 = rest"
        "trace s3 = trace s @ scavenge_events e [phys]"
        by (simp_all add: s3_def s2_def s1_def)
      have s3_eq: "s3 = s\<lparr>hidden_blocks := rest, trace := trace s @ scavenge_events e [phys]\<rparr>"
        by (simp add: s3_def s2_def s1_def)
      show ?thesis
        unfolding step ih pops s3_simps
        by (simp add: s3_eq Cons algebra_simps)
    qed
  qed
qed

lemma attempted_append: "attempted (xs @ ys) = attempted xs @ attempted ys"
  by (induction xs rule: attempted.induct) simp_all

lemma failed_append: "failed (xs @ ys) = failed xs @ failed ys"
  by (induction xs rule: failed.induct) simp_all

lemma queried_append: "queried (xs @ ys) = queried xs @ queried ys"
  by (induction xs rule: queried.induct) simp_all



lemma disable_unload_fields:
  "hidden_blocks (disable_unload e s) = hidden_blocks s"
  "hidden_blocks_cnt (disable_unload e s) = hidden_blocks_cnt s"
  "ranges (disable_unload e s) = ranges s"
  "nallocs (disable_unload e s) = nallocs s"
  "attempted (trace (disable_unload e s)) = attempted (trace s)"
  "failed (trace (disable_unload e s)) = failed (trace s)"
  "unloadable (disable_unload e s) = (unloadable s \<and> \<not> module_get e)"
  by (auto simp: disable_unload_def attempted_append failed_append)

text \<open>
  A request that passes validation: the call returns \<open>count\<close>; the state is the one the
  loop leaves, after \<open>disable_unload\<close> when a block was popped.
\<close>

lemma valid_size_ge:
  fixes sz bsz :: u64
  assumes "sz \<noteq> 0" "sz mod bsz = 0" "bsz \<noteq> 0"
  shows "unat bsz \<le> unat sz"
proof -
  have "unat sz mod unat bsz = 0"
    using assms(2) by (metis unat_mod unat_0) 
  then have "unat bsz dvd unat sz" by auto
  moreover have "0 < unat sz" using assms(1) by (simp add: unat_gt_0)
  ultimately show ?thesis by (rule dvd_imp_le)
qed

lemma pops_no_wrap:
  "block_sz e \<noteq> 0 \<Longrightarrow>
   unat (sz - of_nat (scavenge_pops e sz s) * block_sz e)
     = unat sz - scavenge_pops e sz s * unat (block_sz e)"
proof -
  assume b: "block_sz e \<noteq> 0"
  let ?k = "scavenge_pops e sz s"
  have "?k * unat (block_sz e) \<le> (unat sz div unat (block_sz e)) * unat (block_sz e)"
    by (simp add: scavenge_pops_def)
  also have "\<dots> \<le> unat sz" by simp
  finally have le: "?k * unat (block_sz e) \<le> unat sz" .
  have lt: "?k * unat (block_sz e) < 2 ^ 64"
    using le unsigned_less [of sz, where 'a = nat] by simp
  have kk: "?k < 2 ^ 64"
  proof -
    have "1 \<le> unat (block_sz e)" using b by (simp add: unat_gt_0 Suc_leI)
    then have "?k * 1 \<le> ?k * unat (block_sz e)" by (rule mult_le_mono2)
    with lt show ?thesis by linarith
  qed
  have u: "unat (of_nat ?k * block_sz e) = ?k * unat (block_sz e)"
    using lt kk by (simp add: unat_word_ariths unat_of_nat take_bit_nat_eq_self)
  have "of_nat ?k * block_sz e \<le> sz"
    using le u by (simp add: word_le_nat_alt)
  then show ?thesis
    by (simp add: unat_sub u)
qed

lemma scavenge_store_valid:
  assumes "kstrtoull e buf = Inr sz" "sz \<noteq> 0" "sz mod block_sz e = 0" "block_sz e \<noteq> 0"
  shows "scavenge_store e buf s =
     (Inr (length buf),
      (if hidden_blocks s = [] then (\<lambda>x. x) else disable_unload e)
        (s\<lparr>hidden_blocks := drop (scavenge_pops e sz s) (hidden_blocks s),
           trace := trace s @ scavenge_events e (take (scavenge_pops e sz s) (hidden_blocks s))\<rparr>))"
proof -
  have ge: "unat (block_sz e) \<le> unat sz"
    using assms by (intro valid_size_ge)
  have bpos: "0 < unat (block_sz e)" using assms(4) by (simp add: unat_gt_0)
  have one: "1 \<le> unat sz div unat (block_sz e)"
    using ge bpos by (simp add: Suc_leI div_greater_zero_iff)
  have k0: "scavenge_pops e sz s = 0 \<longleftrightarrow> hidden_blocks s = []"
    using one by (auto simp: scavenge_pops_def min_def)
  have lt: "sz - of_nat (scavenge_pops e sz s) * block_sz e < sz \<longleftrightarrow> hidden_blocks s \<noteq> []"
  proof -
    have "unat sz - scavenge_pops e sz s * unat (block_sz e) < unat sz \<longleftrightarrow> scavenge_pops e sz s \<noteq> 0"
      using bpos ge by (cases "scavenge_pops e sz s") auto
    then show ?thesis
      by (simp add: word_less_nat_alt pops_no_wrap [OF assms(4)] k0)
  qed
  show ?thesis
    using assms lt
    by (simp add: scavenge_store_def scavenge_loop_result [OF assms(4)])
qed

section \<open>Scavenging: what a valid request consumes\<close>





section \<open>The one-way flag\<close>

text \<open>
  No attribute ever sets \<open>unloadable\<close>: where it is set after an access, or after any
  sequence of accesses, it was set before.
\<close>

lemma scavenge_store_unloadable:
  "unloadable (snd (scavenge_store e buf s)) \<Longrightarrow> unloadable s"
proof (cases "kstrtoull e buf")
  case (Inl rc)
  assume "unloadable (snd (scavenge_store e buf s))"
  with Inl show ?thesis by (simp add: scavenge_store_def)
next
  case (Inr sz)
  assume u: "unloadable (snd (scavenge_store e buf s))"
  show ?thesis
  proof (cases "sz = 0 \<or> sz mod block_sz e \<noteq> 0")
    case True
    with Inr u show ?thesis by (auto simp: scavenge_store_def)
  next
    case False
    then have nz: "sz \<noteq> 0" and md: "sz mod block_sz e = 0" by auto
    have b: "block_sz e \<noteq> 0"
      using nz md by auto
    show ?thesis
      using u by (simp add: scavenge_store_valid [OF Inr nz md b] disable_unload_fields
          split: if_splits)
  qed
qed

lemma probe_store_unloadable:
  "unloadable (snd (probe_store e buf s)) \<Longrightarrow> unloadable s"
  by (auto simp: probe_store_def Let_def disable_unload_fields split: sum.splits if_splits)

lemma sysfs_op_unloadable: "unloadable (sysfs_op rq s) \<Longrightarrow> unloadable s"
proof -
  assume u: "unloadable (sysfs_op rq s)"
  obtain e r where rq: "rq = (e, r)" by (cases rq)
  show ?thesis
    using u unfolding rq
    by (cases r) (auto dest: scavenge_store_unloadable probe_store_unloadable)
qed

lemma sysfs_run_unloadable: "unloadable (sysfs_run rqs s) \<Longrightarrow> unloadable s"
  unfolding sysfs_run_def
  by (induction rqs arbitrary: s) (auto dest: sysfs_op_unloadable)

text \<open>
  C2, as the code has it. \<open>disable_unload\<close> clears the flag only when
  \<open>try_module_get(THIS_MODULE)\<close> succeeds. For every scavenge call that passes validation
  (it returns \<open>count\<close>) and pops at least one hidden block, whether or not the
  registrations succeed: the flag is set on return exactly when it was set before and
  \<open>try_module_get\<close> failed; so it is clear on return whenever \<open>try_module_get\<close> succeeds
  or it was clear already. Once clear, it stays clear through every later sequence of
  attribute accesses.
\<close>

theorem scavenge_store_locks:
  assumes "scavenge_store e buf s = (Inr cnt, s')"
    and "length (hidden_blocks s') < length (hidden_blocks s)"
  shows "unloadable s' = (unloadable s \<and> \<not> module_get e) \<and>
         (\<not> unloadable s' \<longrightarrow> (\<forall>rqs. \<not> unloadable (sysfs_run rqs s')))"
proof -
  obtain sz where p: "kstrtoull e buf = Inr sz"
    using assms(1) by (cases "kstrtoull e buf") (auto simp: scavenge_store_def)
  have v: "\<not> (sz = 0 \<or> sz mod block_sz e \<noteq> 0)"
    using assms(1) p by (auto simp: scavenge_store_def split: if_splits)
  then have nz: "sz \<noteq> 0" and md: "sz mod block_sz e = 0" by auto
  have b: "block_sz e \<noteq> 0"
    using nz md by auto
  have ne: "hidden_blocks s \<noteq> []"
    using assms(2) by auto
  have s': "s' = disable_unload e
       (s\<lparr>hidden_blocks := drop (scavenge_pops e sz s) (hidden_blocks s),
          trace := trace s @ scavenge_events e (take (scavenge_pops e sz s) (hidden_blocks s))\<rparr>)"
    using assms(1) ne by (simp add: scavenge_store_valid [OF p nz md b])
  have "unloadable s' = (unloadable s \<and> \<not> module_get e)"
    by (simp add: s' disable_unload_fields)
  moreover have "\<not> unloadable s' \<longrightarrow> (\<forall>rqs. \<not> unloadable (sysfs_run rqs s'))"
    using sysfs_run_unloadable by blast
  ultimately show ?thesis by simp
qed

theorem scavenge_store_locks_witness:
  "(case scavenge_store scenario_env ''0x2000'' scenario_blocks of
     (r, s') \<Rightarrow> r = Inr 6 \<and> hidden_blocks s' = [0x6000, 0x7000] \<and> \<not> unloadable s' \<and>
        \<not> unloadable (sysfs_run [(scenario_env, Show_hidden_blocks), (scenario_env, Scavenge ''0x1000'')] s'))"
proof -
  obtain r s' where rs: "scavenge_store scenario_env ''0x2000'' scenario_blocks = (r, s')"
    by (cases "scavenge_store scenario_env ''0x2000'' scenario_blocks")
  have r: "r = Inr 6" and h: "hidden_blocks s' = [0x6000, 0x7000]"
    using rs by (auto simp: scenario_defs scavenge_store_def scavenge_loop.simps disable_unload_def)
  have rs': "scavenge_store scenario_env ''0x2000'' scenario_blocks = (Inr 6, s')"
    using rs r by simp
  have lt: "length (hidden_blocks s') < length (hidden_blocks scenario_blocks)"
    by (simp add: h scenario_defs)
  have "unloadable s' = (unloadable scenario_blocks \<and> \<not> module_get scenario_env) \<and>
         (\<not> unloadable s' \<longrightarrow> (\<forall>rqs. \<not> unloadable (sysfs_run rqs s')))"
    by (rule scavenge_store_locks [OF rs' lt])
  then have "\<not> unloadable s' \<and>
        \<not> unloadable (sysfs_run [(scenario_env, Show_hidden_blocks), (scenario_env, Scavenge ''0x1000'')] s')"
    by (simp add: scenario_defs)
  then show ?thesis
    unfolding rs using r h by simp
qed

text \<open>
  C2 as stated fails: with \<open>try_module_get\<close> failing, a valid scavenge of \<open>0x2000\<close> bytes
  pops the blocks at \<open>0x4000\<close> and \<open>0x5000\<close> and returns with \<open>unloadable\<close> still set.
\<close>

theorem scavenge_store_unlocked_counterexample:
  "(case scavenge_store (scenario_env\<lparr>module_get := False\<rparr>) ''0x2000'' scenario_blocks of
     (r, s') \<Rightarrow> r = Inr 6 \<and> hidden_blocks s' = [0x6000, 0x7000] \<and> unloadable s')"
  by (simp add: scenario_defs scavenge_store_def scavenge_loop.simps disable_unload_def)

section \<open>Alignment in 64-bit arithmetic\<close>

text \<open>
  For a power of two \<open>2 ^ k\<close> and an address \<open>x\<close> with \<open>x + 2 ^ k\<close> at most \<open>2 ^ 64\<close>,
  \<open>ALIGN\<close> does not wrap: it is \<open>x\<close> rounded up to the next multiple of \<open>2 ^ k\<close>.
\<close>

lemma and_not_mask_push_drop: "(y :: u64) AND NOT (mask k) = push_bit k (drop_bit k y)"
  by (rule bit_eqI) (auto simp: bit_simps)

lemma unat_and_not_mask: "unat ((y :: u64) AND NOT (mask k)) = (unat y div 2 ^ k) * 2 ^ k"
proof -
  have "(unat y div 2 ^ k) * 2 ^ k \<le> unat y" by simp
  also have "unat y < 2 ^ 64" using unsigned_less [of y, where 'a = nat] by simp
  finally have lt: "(unat y div 2 ^ k) * 2 ^ k < 2 ^ 64" .
  have "unat (push_bit k (drop_bit k y)) = take_bit 64 (push_bit k (drop_bit k (unat y)))"
    by (simp add: unsigned_push_bit_eq unat_drop_bit_eq)
  also have "\<dots> = take_bit 64 ((unat y div 2 ^ k) * 2 ^ k)"
    by (simp add: push_bit_nat_def drop_bit_nat_def)
  also have "\<dots> = (unat y div 2 ^ k) * 2 ^ k"
    using lt by (simp add: take_bit_nat_eq_self)
  finally show ?thesis
    by (simp add: and_not_mask_push_drop)
qed

lemma unat_two_power: 
  assumes "k < 64" shows "unat ((2 :: u64) ^ k) = 2 ^ k"
proof -
  have "(2 :: u64) ^ k = of_nat (2 ^ k)" by simp
  then have "unat ((2 :: u64) ^ k) = take_bit 64 ((2::nat) ^ k)"
    by (simp only: unsigned_of_nat) simp
  also have "\<dots> = 2 ^ k"
    using assms by (simp add: take_bit_nat_eq_self)
  finally show ?thesis .
qed

lemma unat_mask_u64:
  assumes "k < 64" shows "unat (mask k :: u64) = 2 ^ k - 1"
proof -
  have "(1 :: u64) \<le> 2 ^ k"
    using assms by (simp add: word_le_nat_alt unat_two_power)
  then have "unat ((2 :: u64) ^ k - 1) = unat ((2 :: u64) ^ k) - unat (1 :: u64)"
    by (rule unat_sub)
  then show ?thesis
    using assms by (simp add: mask_eq_decr_exp unat_two_power)
qed

lemma ALIGN_unat:
  assumes "k < 64" "unat x + 2 ^ k \<le> 2 ^ 64"
  shows "unat (ALIGN x (2 ^ k)) = ((unat x + 2 ^ k - 1) div 2 ^ k) * 2 ^ k"
proof -
  have m: "(2 :: u64) ^ k - 1 = mask k"
    by (simp add: mask_eq_decr_exp)
  have um: "unat (mask k :: u64) = 2 ^ k - 1"
    using assms(1) by (rule unat_mask_u64)
  have "unat x + unat (mask k :: u64) < 2 ^ 64"
    using assms(2) by (simp add: um)
  then have ua: "unat (x + mask k) = unat x + (2 ^ k - 1)"
    by (simp add: unat_add_lem [THEN iffD1] um)
  show ?thesis
    using assms by (simp add: ALIGN_def m unat_and_not_mask ua)
qed

lemma ALIGN_bounds:
  assumes "k < 64" "unat x + 2 ^ k \<le> 2 ^ 64"
  shows "unat x \<le> unat (ALIGN x (2 ^ k))" and "unat (ALIGN x (2 ^ k)) < unat x + 2 ^ k"
proof -
  let ?n = "unat x + 2 ^ k - 1"
  have p: "(0::nat) < 2 ^ k" by simp
  have d: "?n = (?n div 2 ^ k) * 2 ^ k + ?n mod 2 ^ k"
    by (rule div_mult_mod_eq [symmetric])
  have r: "?n mod 2 ^ k < 2 ^ k" by simp
  have "(?n div 2 ^ k) * 2 ^ k \<le> ?n" by simp
  then show "unat (ALIGN x (2 ^ k)) < unat x + 2 ^ k"
    using p unfolding ALIGN_unat [OF assms] by linarith
  have "?n < (?n div 2 ^ k) * 2 ^ k + 2 ^ k"
    using d r by linarith
  then show "unat x \<le> unat (ALIGN x (2 ^ k))"
    unfolding ALIGN_unat [OF assms] by linarith
qed

section \<open>The per-range loop of the scanner\<close>

lemma hidden_block_add_cases:
  obtains (fail) "\<not> alloc_ok e (nallocs s)"
      "hidden_block_add e phys s = (Inl ENOMEM, s\<lparr>nallocs := nallocs s + 1\<rparr>)"
  | (ok) "alloc_ok e (nallocs s)"
      "hidden_block_add e phys s =
         (Inr (), s\<lparr>hidden_blocks := hidden_blocks s @ [phys],
                   hidden_blocks_cnt := hidden_blocks_cnt s + 1,
                   nallocs := nallocs s + 1\<rparr>)"
  by (cases "alloc_ok e (nallocs s)") (auto simp: hidden_block_add_def)

lemma find_hidden_blocks_range_terminates:
  assumes "block_sz e \<noteq> 0"
    and "unat rend + unat (block_sz e) \<le> 2 ^ 64"
    and "unat start + unat (block_sz e) < 2 ^ 64"
  shows "\<exists>out. find_hidden_blocks_range e rend start s = Some out \<and> range_scan_ok e rend start s out"
  using assms(3)
proof (induction "unat rend - unat start" arbitrary: start s rule: less_induct)
  case less
  let ?b = "block_sz e"
  have bpos: "0 < unat ?b" using assms(1) by (simp add: unat_gt_0)
  have ua: "unat (start + ?b) = unat start + unat ?b"
    using less.prems by (simp add: unat_add_lem [THEN iffD1])
  show ?case
  proof (cases "start + ?b < rend")
    case False
    then have "find_hidden_blocks_range e rend start s = Some (Inr (), s)"
      by (subst find_hidden_blocks_range.simps) simp
    then show ?thesis
      by (simp add: range_scan_ok_def)
  next
    case True
    then have lt: "unat start + unat ?b < unat rend"
      by (simp add: word_less_nat_alt ua)
    have meas: "unat rend - unat (start + ?b) < unat rend - unat start"
      using lt bpos by (simp add: ua)
    have nxt: "unat (start + ?b) + unat ?b < 2 ^ 64"
      using lt assms(2) by (simp add: ua)
    define s1 where "s1 = s\<lparr>trace := trace s @ [Region_intersects start ?b]\<rparr>"
    show ?thesis
    proof (cases "region_free e start ?b")
      case False
      have step: "find_hidden_blocks_range e rend start s = find_hidden_blocks_range e rend (start + ?b) s1"
        using True False by (subst find_hidden_blocks_range.simps) (simp add: s1_def Let_def)
      obtain out where o: "find_hidden_blocks_range e rend (start + ?b) s1 = Some out"
        and ok: "range_scan_ok e rend (start + ?b) s1 out"
        using less.hyps [OF meas nxt, of s1] by blast
      obtain res s' where out: "out = (res, s')" by (cases out)
      obtain qs bl where q: "queried (trace s') = queried (trace s1) @ qs"
        and h: "hidden_blocks s' = hidden_blocks s1 @ bl" and sub: "set bl \<subseteq> set qs"
        and inr: "\<forall>a \<in> set qs. unat (start + ?b) \<le> unat a \<and> unat a + unat ?b < unat rend"
        using ok unfolding range_scan_ok_def out by (auto simp: list_all_iff)
      have "range_scan_ok e rend start s out"
        unfolding range_scan_ok_def out
        apply (simp only: prod.case)
        apply (rule exI [of _ "start # qs"], rule exI [of _ bl])
        using q h sub inr lt by (auto simp: s1_def queried_append ua list_all_iff)
      then show ?thesis using step o by simp
    next
      case free: True
      show ?thesis
      proof (cases rule: hidden_block_add_cases [of e s1 start])
        case fail
        have step: "find_hidden_blocks_range e rend start s = Some (Inl ENOMEM, s1\<lparr>nallocs := nallocs s1 + 1\<rparr>)"
          using True free fail(2)
          by (subst find_hidden_blocks_range.simps) (simp add: s1_def Let_def)
        have "range_scan_ok e rend start s (Inl ENOMEM, s1\<lparr>nallocs := nallocs s1 + 1\<rparr>)"
          unfolding range_scan_ok_def
          apply (simp only: prod.case)
          apply (rule exI [of _ "[start]"], rule exI [of _ "[]"])
          using lt by (simp add: s1_def queried_append)
        then show ?thesis using step by simp
      next
        case ok
        define s2 where "s2 = s1\<lparr>hidden_blocks := hidden_blocks s1 @ [start],
                   hidden_blocks_cnt := hidden_blocks_cnt s1 + 1,
                   nallocs := nallocs s1 + 1\<rparr>"
        have step: "find_hidden_blocks_range e rend start s = find_hidden_blocks_range e rend (start + ?b) s2"
          using True free ok(2)
          by (subst find_hidden_blocks_range.simps) (simp add: s1_def s2_def Let_def)
        obtain out where o: "find_hidden_blocks_range e rend (start + ?b) s2 = Some out"
          and okk: "range_scan_ok e rend (start + ?b) s2 out"
          using less.hyps [OF meas nxt, of s2] by blast
        obtain res s' where out: "out = (res, s')" by (cases out)
        obtain qs bl where q: "queried (trace s') = queried (trace s2) @ qs"
          and h: "hidden_blocks s' = hidden_blocks s2 @ bl" and sub: "set bl \<subseteq> set qs"
          and inr: "\<forall>a \<in> set qs. unat (start + ?b) \<le> unat a \<and> unat a + unat ?b < unat rend"
          using okk unfolding range_scan_ok_def out by (auto simp: list_all_iff)
        have "range_scan_ok e rend start s out"
          unfolding range_scan_ok_def out
          apply (simp only: prod.case)
          apply (rule exI [of _ "start # qs"], rule exI [of _ "start # bl"])
          using q h sub inr lt by (auto simp: s1_def s2_def queried_append ua list_all_iff)
        then show ?thesis using step o by simp
      qed
    qed
  qed
qed


lemma alloc_failed_iff:
  "alloc_failed e s s' \<longleftrightarrow> (\<exists>i. nallocs s \<le> i \<and> i < nallocs s' \<and> \<not> alloc_ok e i)"
  by (auto simp: alloc_failed_def list_ex_iff)

lemma alloc_failed_split:
  assumes "nallocs s \<le> nallocs s1" "nallocs s1 \<le> nallocs s'"
  shows "alloc_failed e s s' \<longleftrightarrow> alloc_failed e s s1 \<or> alloc_failed e s1 s'"
proof
  assume "alloc_failed e s s'"
  then obtain i where i: "nallocs s \<le> i" "i < nallocs s'" "\<not> alloc_ok e i"
    by (auto simp: alloc_failed_iff)
  show "alloc_failed e s s1 \<or> alloc_failed e s1 s'"
  proof (cases "i < nallocs s1")
    case True
    with i have "alloc_failed e s s1" by (auto simp: alloc_failed_iff)
    then show ?thesis ..
  next
    case False
    then have "nallocs s1 \<le> i" by simp
    with i have "alloc_failed e s1 s'" by (auto simp: alloc_failed_iff)
    then show ?thesis ..
  qed
next
  assume "alloc_failed e s s1 \<or> alloc_failed e s1 s'"
  then show "alloc_failed e s s'"
  proof
    assume "alloc_failed e s s1"
    then obtain i where i: "nallocs s \<le> i" "i < nallocs s1" "\<not> alloc_ok e i"
      by (auto simp: alloc_failed_iff)
    from i(2) assms(2) have "i < nallocs s'" by (rule less_le_trans)
    with i show ?thesis by (auto simp: alloc_failed_iff)
  next
    assume "alloc_failed e s1 s'"
    then obtain i where i: "nallocs s1 \<le> i" "i < nallocs s'" "\<not> alloc_ok e i"
      by (auto simp: alloc_failed_iff)
    from assms(1) i(1) have "nallocs s \<le> i" by (rule le_trans)
    with i show ?thesis by (auto simp: alloc_failed_iff)
  qed
qed

lemma alloc_outcome_step:
  assumes "alloc_outcome e s1 out" "nallocs s \<le> nallocs s1" "ranges s1 = ranges s"
    "\<not> alloc_failed e s s1"
  shows "alloc_outcome e s out"
proof -
  obtain res s' where out: "out = (res, s')" by (cases out)
  have o: "nallocs s1 \<le> nallocs s'" "ranges s' = ranges s1"
    "res = Inr () \<and> \<not> alloc_failed e s1 s' \<or> res = Inl ENOMEM \<and> alloc_failed e s1 s'"
    using assms(1) by (simp_all add: alloc_outcome_def out)
  have f: "alloc_failed e s s' \<longleftrightarrow> alloc_failed e s1 s'"
    using alloc_failed_split [OF assms(2) o(1), of e] assms(4) by simp
  have "nallocs s \<le> nallocs s'"
    using assms(2) o(1) by (rule le_trans)
  then show ?thesis
    using o(2,3) by (simp add: alloc_outcome_def out f assms(3))
qed

lemma find_hidden_blocks_range_alloc:
  assumes "find_hidden_blocks_range e rend start s = Some out"
  shows "alloc_outcome e s out"
  using assms
proof (induction rule: find_hidden_blocks_range.raw_induct [rotated, consumes 1, case_names step])
  case (step f e rend start s out)
  note 1 = step
  let ?b = "block_sz e"
  define s1 where "s1 = s\<lparr>trace := trace s @ [Region_intersects start ?b]\<rparr>"
  have s1: "nallocs s \<le> nallocs s1" "ranges s1 = ranges s" "\<not> alloc_failed e s s1"
    by (simp_all add: s1_def alloc_failed_iff)
  show ?case
  proof (cases "start + ?b < rend")
    case False
    with 1(2) have "out = (Inr (), s)" by simp
    then show ?thesis by (simp add: alloc_outcome_def alloc_failed_iff)
  next
    case True
    show ?thesis
    proof (cases "region_free e start ?b")
      case False
      with True 1(2) have "f e rend (start + ?b) s1 = Some out"
        by (simp add: s1_def Let_def)
      then have "alloc_outcome e s1 out" by (rule 1(1))
      then show ?thesis using s1 by (rule alloc_outcome_step)
    next
      case free: True
      show ?thesis
      proof (cases rule: hidden_block_add_cases [of e s1 start])
        case fail
        with True free 1(2) have "out = (Inl ENOMEM, s1\<lparr>nallocs := nallocs s1 + 1\<rparr>)"
          by (simp add: s1_def Let_def)
        then show ?thesis
          using fail(1) by (auto simp add: alloc_outcome_def alloc_failed_iff s1_def)
      next
        case ok
        define s2 where "s2 = s1\<lparr>hidden_blocks := hidden_blocks s1 @ [start],
                   hidden_blocks_cnt := hidden_blocks_cnt s1 + 1,
                   nallocs := nallocs s1 + 1\<rparr>"
        have s2: "nallocs s \<le> nallocs s2" "ranges s2 = ranges s" "\<not> alloc_failed e s s2"
          using ok(1) by (auto simp add: s2_def s1_def alloc_failed_iff le_less_Suc_eq)
        from True free ok(2) 1(2) have "f e rend (start + ?b) s2 = Some out"
          by (simp add: s1_def s2_def Let_def)
        then have "alloc_outcome e s2 out" by (rule 1(1))
        then show ?thesis using s2 by (rule alloc_outcome_step)
      qed
    qed
  qed
qed

section \<open>The scan of the whole range map\<close>

lemma find_hidden_blocks_loop_alloc:
  "find_hidden_blocks_loop e rs s = Some out \<Longrightarrow> alloc_outcome e s out"
proof (induction rs arbitrary: s)
  case Nil
  then show ?case by (auto simp: alloc_outcome_def alloc_failed_iff)
next
  case (Cons r rs)
  let ?scan = "find_hidden_blocks_range e (range_end r) (ALIGN (range_start r) (block_sz e)) s"
  from Cons.prems obtain res s1 where scan: "?scan = Some (res, s1)"
    by (cases ?scan) auto
  have o1: "alloc_outcome e s (res, s1)"
    using scan by (rule find_hidden_blocks_range_alloc)
  show ?case
  proof (cases res)
    case (Inl rc)
    with Cons.prems scan have "out = (res, s1)" by simp
    with o1 show ?thesis by simp
  next
    case (Inr u)
    with Cons.prems scan have "find_hidden_blocks_loop e rs s1 = Some out" by simp
    then have "alloc_outcome e s1 out" by (rule Cons.IH)
    moreover have "nallocs s \<le> nallocs s1" "ranges s1 = ranges s" "\<not> alloc_failed e s s1"
      using o1 Inr by (auto simp: alloc_outcome_def)
    ultimately show ?thesis by (rule alloc_outcome_step)
  qed
qed

lemma range_no_wrap_start:
  assumes "block_sz e = 2 ^ k" "k < 64" "range_no_wrap (block_sz e) r"
  shows "unat (range_start r) \<le> unat (ALIGN (range_start r) (block_sz e))"
    and "unat (ALIGN (range_start r) (block_sz e)) + unat (block_sz e) < 2 ^ 64"
    and "unat (range_end r) + unat (block_sz e) \<le> 2 ^ 64"
    and "block_sz e \<noteq> 0"
proof -
  have ub: "unat (block_sz e) = 2 ^ k"
    using assms(1,2) by (simp add: unat_two_power)
  have le: "unat (range_start r) + 2 ^ k \<le> 2 ^ 64"
    using assms(3) by (simp add: range_no_wrap_def ub)
  show "unat (range_start r) \<le> unat (ALIGN (range_start r) (block_sz e))"
    unfolding assms(1) using assms(2) le by (rule ALIGN_bounds)
  have "unat (ALIGN (range_start r) (2 ^ k)) < unat (range_start r) + 2 ^ k"
    using assms(2) le by (rule ALIGN_bounds)
  then show "unat (ALIGN (range_start r) (block_sz e)) + unat (block_sz e) < 2 ^ 64"
    using assms(3) by (simp add: range_no_wrap_def assms(1) unat_two_power [OF assms(2)])
  show "unat (range_end r) + unat (block_sz e) \<le> 2 ^ 64"
    using assms(3) by (simp add: range_no_wrap_def)
  show "block_sz e \<noteq> 0"
    using ub by (auto simp: unat_eq_0 [symmetric])
qed

lemma find_hidden_blocks_loop_terminates:
  assumes "block_sz e = 2 ^ k" "k < 64"
  shows "list_all (range_no_wrap (block_sz e)) rs \<Longrightarrow> \<exists>out. find_hidden_blocks_loop e rs s = Some out"
proof (induction rs arbitrary: s)
  case Nil
  then show ?case by simp
next
  case (Cons r rs)
  then have nw: "range_no_wrap (block_sz e) r" and rest: "list_all (range_no_wrap (block_sz e)) rs"
    by simp_all
  note b = range_no_wrap_start [OF assms nw]
  obtain out1 where scan:
      "find_hidden_blocks_range e (range_end r) (ALIGN (range_start r) (block_sz e)) s = Some out1"
    using find_hidden_blocks_range_terminates [OF b(4) b(3) b(2)] by blast
  obtain res s1 where out1: "out1 = (res, s1)" by (cases out1)
  show ?case
  proof (cases res)
    case (Inl rc)
    then show ?thesis by (simp add: scan out1)
  next
    case (Inr u)
    then show ?thesis using Cons.IH [OF rest, of s1] by (simp add: scan out1)
  qed
qed

declare hidden_blocks_purge.simps [simp del]

lemma hidden_blocks_purge_result:
  "hidden_blocks (hidden_blocks_purge s) = [] \<and>
   nallocs (hidden_blocks_purge s) = nallocs s \<and>
   ranges (hidden_blocks_purge s) = ranges s \<and>
   unloadable (hidden_blocks_purge s) = unloadable s"
proof (induction s rule: hidden_blocks_purge.induct)
  case (1 s)
  show ?case
  proof (cases "hidden_blocks s")
    case Nil
    then show ?thesis by (subst (1 2 3 4) hidden_blocks_purge.simps) simp
  next
    case (Cons b rest)
    then have "hidden_blocks_purge s = hidden_blocks_purge (hidden_block_free s)"
      by (subst hidden_blocks_purge.simps) simp
    then show ?thesis
      using "1.IH" [OF Cons] by (simp add: hidden_block_free_def)
  qed
qed

lemma find_hidden_blocks_alloc:
  assumes "find_hidden_blocks e s = Some (res, s')"
  shows "(res = Inr () \<and> \<not> alloc_failed e s s' \<or>
          res = Inl ENOMEM \<and> alloc_failed e s s' \<and> hidden_blocks s' = [])
         \<and> ranges s' = ranges s"
proof -
  from assms obtain r1 s1 where l: "find_hidden_blocks_loop e (ranges s) s = Some (r1, s1)"
    by (cases "find_hidden_blocks_loop e (ranges s) s") (auto simp: find_hidden_blocks_def)
  have o: "alloc_outcome e s (r1, s1)"
    using l by (rule find_hidden_blocks_loop_alloc)
  show ?thesis
  proof (cases r1)
    case (Inr u)
    with assms l have "res = Inr ()" "s' = s1" by (simp_all add: find_hidden_blocks_def)
    with o Inr show ?thesis by (auto simp: alloc_outcome_def)
  next
    case (Inl rc)
    with assms l have r: "res = Inl rc" "s' = hidden_blocks_purge s1"
      by (simp_all add: find_hidden_blocks_def)
    have "alloc_failed e s s' = alloc_failed e s s1"
      by (simp add: r alloc_failed_def hidden_blocks_purge_result)
    with o Inl r show ?thesis
      by (auto simp: alloc_outcome_def hidden_blocks_purge_result)
  qed
qed

lemma find_hidden_blocks_terminates:
  assumes "block_sz e = 2 ^ k" "k < 64" "list_all (range_no_wrap (block_sz e)) (ranges s)"
  shows "\<exists>out. find_hidden_blocks e s = Some out"
proof -
  obtain out where "find_hidden_blocks_loop e (ranges s) s = Some out"
    using find_hidden_blocks_loop_terminates [OF assms] by blast
  then show ?thesis
    by (cases out) (auto simp: find_hidden_blocks_def split: sum.splits)
qed

section \<open>Termination of the per-range loop\<close>

text \<open>
  C9, as the code has it. The loop bound \<open>start + block_sz\<close> and \<open>ALIGN\<close> are computed in
  unsigned 64-bit arithmetic with no check for overflow. For a power-of-two block size
  and a range whose start is at most \<open>2 ^ 64\<close> minus two blocks and whose end is at most
  \<open>2 ^ 64\<close> minus one block, the per-range loop terminates, and every address it hands
  to \<open>region_intersects\<close>, hence every block it appends, is the address of a block that
  lies wholly inside the range.
\<close>

theorem find_hidden_blocks_range_inside:
  assumes "block_sz e = 2 ^ k" and "k < 64"
    and "range_no_wrap (block_sz e) r"
  shows "\<exists>res s' qs bl.
           find_hidden_blocks_range e (range_end r) (ALIGN (range_start r) (block_sz e)) s
             = Some (res, s') \<and>
           queried (trace s') = queried (trace s) @ qs \<and>
           hidden_blocks s' = hidden_blocks s @ bl \<and>
           set bl \<subseteq> set qs \<and>
           list_all (block_inside (block_sz e) r) qs"
proof -
  note b = range_no_wrap_start [OF assms]
  let ?start = "ALIGN (range_start r) (block_sz e)"
  obtain out where scan: "find_hidden_blocks_range e (range_end r) ?start s = Some out"
    and ok: "range_scan_ok e (range_end r) ?start s out"
    using find_hidden_blocks_range_terminates [OF b(4) b(3) b(2)] by blast
  obtain res s' where out: "out = (res, s')" by (cases out)
  obtain qs bl where q: "queried (trace s') = queried (trace s) @ qs"
    and h: "hidden_blocks s' = hidden_blocks s @ bl" and sub: "set bl \<subseteq> set qs"
    and inr: "list_all (\<lambda>a. unat ?start \<le> unat a \<and> unat a + unat (block_sz e) < unat (range_end r)) qs"
    using ok unfolding range_scan_ok_def out by auto
  have "list_all (block_inside (block_sz e) r) qs"
    using inr b(1) by (auto simp: list_all_iff block_inside_def)
  with scan q h sub show ?thesis
    unfolding out by blast
qed

theorem find_hidden_blocks_range_inside_witness:
  "\<exists>res s' qs bl.
     find_hidden_blocks_range scenario_env 0x7FFF (ALIGN 0x4000 0x1000) scenario_map
       = Some (res, s') \<and>
     queried (trace s') = queried (trace scenario_map) @ qs \<and>
     hidden_blocks s' = hidden_blocks scenario_map @ bl \<and>
     set bl \<subseteq> set qs \<and>
     list_all (block_inside 0x1000 \<lparr>range_start = 0x4000, range_end = 0x7FFF\<rparr>) qs"
proof -
  have b: "block_sz scenario_env = 2 ^ 12" by (simp add: scenario_defs)
  have k: "(12::nat) < 64" by simp
  have nw: "range_no_wrap (block_sz scenario_env) \<lparr>range_start = 0x4000, range_end = 0x7FFF\<rparr>"
    by (simp add: scenario_defs range_no_wrap_def)
  show ?thesis
    using find_hidden_blocks_range_inside [OF b k nw, of scenario_map]
    by (simp add: scenario_env_def)
qed

text \<open>
  For a range that ends at the top of the address space the bound wraps around. With an
  even block size, an even start and the end \<open>0xFFFFFFFFFFFFFFFF\<close>, \<open>start + block_sz\<close> is
  even and so always below the end: when no block is free (so that no allocation can
  fail and stop the loop) the loop does not return.
\<close>

lemma find_hidden_blocks_range_wraps:
  assumes "find_hidden_blocks_range e rend start s = Some out"
  shows "\<not> (even (block_sz e) \<and> (\<forall>a len. \<not> region_free e a len) \<and> rend = - 1 \<and> even start)"
  using assms
proof (induction rule: find_hidden_blocks_range.raw_induct [rotated, consumes 1, case_names step])
  case (step f e rend start s out)
  show ?case
  proof
    assume c: "even (block_sz e) \<and> (\<forall>a len. \<not> region_free e a len) \<and> rend = - 1 \<and> even start"
    then have ev: "even (start + block_sz e)" by simp
    moreover have "odd (- 1 :: u64)" by simp
    ultimately have "start + block_sz e \<noteq> - 1" by metis
    then have lt: "start + block_sz e < rend"
      using c by (simp add: word_order.not_eq_extremum)
    have "f e rend (start + block_sz e) (s\<lparr>trace := trace s @ [Region_intersects start (block_sz e)]\<rparr>) = Some out"
      using step(2) lt c by (simp add: Let_def)
    then have "\<not> (even (block_sz e) \<and> (\<forall>a len. \<not> region_free e a len) \<and> rend = - 1 \<and> even (start + block_sz e))"
      by (rule step(1))
    with c ev show False by simp
  qed
qed

text \<open>
  C9 as stated fails: for the range \<open>[0xFFFFFFFFFFFFE000, 0xFFFFFFFFFFFFFFFF]\<close>, block size
  \<open>0x1000\<close> and a resource tracker that reports no block free, the per-range loop never
  terminates (after \<open>0xFFFFFFFFFFFFF000\<close> it goes on at address 0, outside the range).
\<close>

theorem find_hidden_blocks_range_top_counterexample:
  "find_hidden_blocks_range (scenario_env\<lparr>region_free := (\<lambda>a len. False)\<rparr>)
     0xFFFFFFFFFFFFFFFF (ALIGN 0xFFFFFFFFFFFFE000 0x1000) memscav_initial = None"
proof (rule ccontr)
  assume "find_hidden_blocks_range (scenario_env\<lparr>region_free := (\<lambda>a len. False)\<rparr>)
     0xFFFFFFFFFFFFFFFF (ALIGN 0xFFFFFFFFFFFFE000 0x1000) memscav_initial \<noteq> None"
  then obtain out where "find_hidden_blocks_range (scenario_env\<lparr>region_free := (\<lambda>a len. False)\<rparr>)
     0xFFFFFFFFFFFFFFFF (ALIGN 0xFFFFFFFFFFFFE000 0x1000) memscav_initial = Some out"
    by auto
  from find_hidden_blocks_range_wraps [OF this] show False
    by (simp add: scenario_env_def ALIGN_def)
qed

section \<open>The range map builders\<close>

lemma ram_map_add_cases:
  obtains (fail) "\<not> alloc_ok e (nallocs s)"
      "ram_map_add e base sz s = (Inl ENOMEM, s\<lparr>nallocs := nallocs s + 1\<rparr>)"
  | (ok) "alloc_ok e (nallocs s)"
      "ram_map_add e base sz s =
         (Inr (), s\<lparr>ranges := ranges s @ [\<lparr>range_start = base, range_end = base + sz - 1\<rparr>],
                   nallocs := nallocs s + 1\<rparr>)"
  by (cases "alloc_ok e (nallocs s)") (auto simp: ram_map_add_def)

lemma build_outcome_step:
  assumes "build_outcome e s1 new out" "nallocs s \<le> nallocs s1" "hidden_blocks s1 = hidden_blocks s"
    "\<not> alloc_failed e s s1" "ranges s1 = ranges s @ pre"
  shows "build_outcome e s (pre @ new) out"
proof -
  obtain res s' where out: "out = (res, s')" by (cases out)
  have o: "nallocs s1 \<le> nallocs s'" "hidden_blocks s' = hidden_blocks s1"
    "res = Inr () \<and> \<not> alloc_failed e s1 s' \<and> ranges s' = ranges s1 @ new \<or>
     res = Inl ENOMEM \<and> alloc_failed e s1 s' \<and> ranges s' = []"
    using assms(1) by (simp_all add: build_outcome_def out)
  have f: "alloc_failed e s s' \<longleftrightarrow> alloc_failed e s1 s'"
    using alloc_failed_split [OF assms(2) o(1), of e] assms(4) by simp
  have "nallocs s \<le> nallocs s'"
    using assms(2) o(1) by (rule le_trans)
  moreover have "hidden_blocks s' = hidden_blocks s"
    using o(2) assms(3) by simp
  moreover have "res = Inr () \<and> \<not> alloc_failed e s s' \<and> ranges s' = ranges s @ (pre @ new) \<or>
     res = Inl ENOMEM \<and> alloc_failed e s s' \<and> ranges s' = []"
    using o(3) by (simp add: f assms(5))
  ultimately show ?thesis
    by (simp add: build_outcome_def out)
qed

lemma ram_map_from_efi_loop_outcome:
  "build_outcome e s (map efi_range (filter efi_conventional mds)) (ram_map_from_efi_loop e mds s)"
proof (induction mds arbitrary: s)
  case Nil
  then show ?case by (simp add: build_outcome_def alloc_failed_iff)
next
  case (Cons md mds)
  show ?case
  proof (cases "efi_conventional md")
    case False
    then show ?thesis
      using Cons.IH [of s] by (simp add: efi_conventional_def)
  next
    case True
    show ?thesis
    proof (cases rule: ram_map_add_cases
        [of e s "phys_addr md" "push_bit EFI_PAGE_SHIFT (num_pages md)"])
      case fail
      then show ?thesis
        using True
        by (auto simp: efi_conventional_def build_outcome_def ram_map_free_def alloc_failed_iff)
    next
      case ok
      define s1 where "s1 = s\<lparr>ranges := ranges s @ [efi_range md], nallocs := nallocs s + 1\<rparr>"
      have step: "ram_map_from_efi_loop e (md # mds) s = ram_map_from_efi_loop e mds s1"
        using True ok(2) by (simp add: efi_conventional_def s1_def efi_range_def)
      have s1: "nallocs s \<le> nallocs s1" "hidden_blocks s1 = hidden_blocks s"
        "\<not> alloc_failed e s s1" "ranges s1 = ranges s @ [efi_range md]"
        using ok(1) by (auto simp: s1_def alloc_failed_iff le_less_Suc_eq)
      have "build_outcome e s ([efi_range md] @ map efi_range (filter efi_conventional mds))
              (ram_map_from_efi_loop e mds s1)"
        using Cons.IH [of s1] s1 by (rule build_outcome_step)
      then show ?thesis
        using True unfolding step by simp
    qed
  qed
qed

declare ram_map_from_fdt_node.simps [simp del]

lemma ram_map_from_fdt_node_outcome:
  "build_outcome e s (map fdt_range (drop i np)) (ram_map_from_fdt_node e np i s)"
proof (induction e np i s rule: ram_map_from_fdt_node.induct)
  case (1 e np i s)
  show ?case
  proof (cases "i < length np")
    case False
    then have "ram_map_from_fdt_node e np i s = (Inr (), s)"
      by (subst ram_map_from_fdt_node.simps) (simp add: of_property_read_reg_def)
    with False show ?thesis by (simp add: build_outcome_def alloc_failed_iff)
  next
    case True
    obtain address sz where reg: "np ! i = (address, sz)" by (cases "np ! i")
    have rd: "of_property_read_reg np i = Inr (address, sz)"
      using True reg by (simp add: of_property_read_reg_def)
    have dr: "drop i np = (address, sz) # drop (i + 1) np"
      using True reg by (simp add: Cons_nth_drop_Suc [symmetric])
    show ?thesis
    proof (cases rule: ram_map_add_cases [of e s address sz])
      case fail
      then have "ram_map_from_fdt_node e np i s = (Inl ENOMEM, ram_map_free (s\<lparr>nallocs := nallocs s + 1\<rparr>))"
        using rd by (subst ram_map_from_fdt_node.simps) simp
      then show ?thesis
        using fail(1) by (auto simp: build_outcome_def ram_map_free_def alloc_failed_iff)
    next
      case ok
      define s1 where "s1 = s\<lparr>ranges := ranges s @ [fdt_range (address, sz)], nallocs := nallocs s + 1\<rparr>"
      have add: "ram_map_add e address sz s = (Inr (), s1)"
        using ok(2) by (simp add: s1_def fdt_range_def)
      have step: "ram_map_from_fdt_node e np i s = ram_map_from_fdt_node e np (i + 1) s1"
        using rd add by (subst ram_map_from_fdt_node.simps) simp
      have s1: "nallocs s \<le> nallocs s1" "hidden_blocks s1 = hidden_blocks s"
        "\<not> alloc_failed e s s1" "ranges s1 = ranges s @ [fdt_range (address, sz)]"
        using ok(1) by (auto simp: s1_def alloc_failed_iff le_less_Suc_eq)
      have ih: "build_outcome e s1 (map fdt_range (drop (i + 1) np)) (ram_map_from_fdt_node e np (i + 1) s1)"
        using rd add by (intro "1.IH") auto
      have "build_outcome e s ([fdt_range (address, sz)] @ map fdt_range (drop (i + 1) np))
              (ram_map_from_fdt_node e np (i + 1) s1)"
        using ih s1 by (rule build_outcome_step)
      then show ?thesis
        by (simp add: step dr)
    qed
  qed
qed

lemma ram_map_from_fdt_loop_outcome:
  "build_outcome e s (map fdt_range (concat nps)) (ram_map_from_fdt_loop e nps s)"
proof (induction nps arbitrary: s)
  case Nil
  then show ?case by (simp add: build_outcome_def alloc_failed_iff)
next
  case (Cons np nps)
  obtain res s1 where node: "ram_map_from_fdt_node e np 0 s = (res, s1)"
    by (cases "ram_map_from_fdt_node e np 0 s")
  have o: "build_outcome e s (map fdt_range np) (res, s1)"
    using ram_map_from_fdt_node_outcome [of e s 0 np] by (simp add: node)
  show ?case
  proof (cases res)
    case (Inl rc)
    then show ?thesis using o by (auto simp: node build_outcome_def)
  next
    case (Inr u)
    then have s1: "nallocs s \<le> nallocs s1" "hidden_blocks s1 = hidden_blocks s"
      "\<not> alloc_failed e s s1" "ranges s1 = ranges s @ map fdt_range np"
      using o by (auto simp: build_outcome_def)
    have "build_outcome e s (map fdt_range np @ map fdt_range (concat nps))
            (ram_map_from_fdt_loop e nps s1)"
      using Cons.IH [of s1] s1 by (rule build_outcome_step)
    then show ?thesis using Inr by (simp add: node)
  qed
qed

lemma sort_insert_mset: "mset (sort_insert r xs) = add_mset r (mset xs)"
  by (induction xs) simp_all

lemma sort_ranges_mset: "mset (sort_ranges rs) = mset rs"
  by (induction rs) (simp_all add: sort_insert_mset)

lemma cmp_range_less: "cmp_range x r < 0 \<longleftrightarrow> range_start x < range_start r"
  by (simp add: cmp_range_def)

lemma sort_insert_set: "set (sort_insert r xs) = insert r (set xs)"
  by (induction xs) auto

lemma sort_insert_sorted:
  "sorted (map range_start xs) \<Longrightarrow> sorted (map range_start (sort_insert r xs))"
  by (induction xs) (auto simp: cmp_range_less sort_insert_set)

lemma sort_ranges_sorted: "sorted (map range_start (sort_ranges rs))"
  by (induction rs) (simp_all add: sort_insert_sorted)

section \<open>The range map that is built\<close>

lemma ram_map_from_efi_outcome:
  "ram_map_from_efi e s = (res, s') \<Longrightarrow>
     nallocs s \<le> nallocs s' \<and>
     (res = Inl EINVAL \<and> \<not> efi_memmap_enabled e \<and> s' = s \<or>
      res = Inr () \<and> \<not> alloc_failed e s s' \<and>
        ranges s' = sort_ranges (ranges s @ map efi_range (filter efi_conventional (efi_memmap e))) \<or>
      res = Inl ENOMEM \<and> alloc_failed e s s' \<and> ranges s' = [])"
proof -
  assume a: "ram_map_from_efi e s = (res, s')"
  obtain r1 s1 where l: "ram_map_from_efi_loop e (efi_memmap e) s = (r1, s1)"
    by (cases "ram_map_from_efi_loop e (efi_memmap e) s")
  have o: "build_outcome e s (map efi_range (filter efi_conventional (efi_memmap e))) (r1, s1)"
    using ram_map_from_efi_loop_outcome [of e s "efi_memmap e"] by (simp add: l)
  show ?thesis
  proof (cases "efi_memmap_enabled e")
    case False
    with a show ?thesis by (auto simp: ram_map_from_efi_def)
  next
    case True
    show ?thesis
    proof (cases r1)
      case (Inl rc)
      with a True l have "res = r1" "s' = s1" by (auto simp: ram_map_from_efi_def)
      with o Inl show ?thesis by (auto simp: build_outcome_def)
    next
      case (Inr u)
      with a True l have r: "res = Inr ()" "s' = s1\<lparr>ranges := sort_ranges (ranges s1)\<rparr>"
        by (auto simp: ram_map_from_efi_def)
      have "alloc_failed e s s' = alloc_failed e s s1"
        by (simp add: r alloc_failed_def)
      with o Inr r show ?thesis by (auto simp: build_outcome_def)
    qed
  qed
qed

lemma ram_map_from_fdt_outcome:
  "ram_map_from_fdt e s = (res, s') \<Longrightarrow>
     nallocs s \<le> nallocs s' \<and>
     (res = Inr () \<and> \<not> alloc_failed e s s' \<and>
        ranges s' = sort_ranges (ranges s @ map fdt_range (concat (fdt_memory e))) \<or>
      res = Inl ENOMEM \<and> alloc_failed e s s' \<and> ranges s' = [])"
proof -
  assume a: "ram_map_from_fdt e s = (res, s')"
  obtain r1 s1 where l: "ram_map_from_fdt_loop e (fdt_memory e) s = (r1, s1)"
    by (cases "ram_map_from_fdt_loop e (fdt_memory e) s")
  have o: "build_outcome e s (map fdt_range (concat (fdt_memory e))) (r1, s1)"
    using ram_map_from_fdt_loop_outcome [of e s "fdt_memory e"] by (simp add: l)
  show ?thesis
  proof (cases r1)
    case (Inl rc)
    with a l have "res = r1" "s' = s1" by (auto simp: ram_map_from_fdt_def)
    with o Inl show ?thesis by (auto simp: build_outcome_def)
  next
    case (Inr u)
    with a l have r: "res = Inr ()" "s' = s1\<lparr>ranges := sort_ranges (ranges s1)\<rparr>"
      by (auto simp: ram_map_from_fdt_def)
    have "alloc_failed e s s' = alloc_failed e s s1"
      by (simp add: r alloc_failed_def)
    with o Inr r show ?thesis by (auto simp: build_outcome_def)
  qed
qed

text \<open>
  C7. A range map built successfully from an empty array, by either provider, is sorted
  ascending by start and holds exactly one range per valid provider entry (as a
  multiset, so also in number): per conventional-memory descriptor of the EFI memory
  map the range \<open>[phys_addr, phys_addr + (num_pages << 12) - 1]\<close>, per "reg" pair of the
  device tree's memory nodes the range \<open>[address, address + size - 1]\<close>, both in 64-bit
  arithmetic.
\<close>

theorem ram_map_sorted_complete:
  assumes "ranges s = []"
  shows "(ram_map_from_efi e s = (Inr (), s1) \<longrightarrow>
            sorted (map range_start (ranges s1)) \<and>
            mset (ranges s1) = mset (map efi_range (filter efi_conventional (efi_memmap e))) \<and>
            length (ranges s1) = length (filter efi_conventional (efi_memmap e))) \<and>
         (ram_map_from_fdt e s = (Inr (), s2) \<longrightarrow>
            sorted (map range_start (ranges s2)) \<and>
            mset (ranges s2) = mset (map fdt_range (concat (fdt_memory e))) \<and>
            length (ranges s2) = length (concat (fdt_memory e)))"
proof (intro conjI impI)
  assume a: "ram_map_from_efi e s = (Inr (), s1)"
  have r: "ranges s1 = sort_ranges (map efi_range (filter efi_conventional (efi_memmap e)))"
    using ram_map_from_efi_outcome [OF a] assms by auto
  show "sorted (map range_start (ranges s1))"
    by (simp add: r sort_ranges_sorted)
  show m: "mset (ranges s1) = mset (map efi_range (filter efi_conventional (efi_memmap e)))"
    by (simp add: r sort_ranges_mset)
  show "length (ranges s1) = length (filter efi_conventional (efi_memmap e))"
    using m by (metis length_map size_mset)
next
  assume a: "ram_map_from_fdt e s = (Inr (), s2)"
  have r: "ranges s2 = sort_ranges (map fdt_range (concat (fdt_memory e)))"
    using ram_map_from_fdt_outcome [OF a] assms by auto
  show "sorted (map range_start (ranges s2))"
    by (simp add: r sort_ranges_sorted)
  show m: "mset (ranges s2) = mset (map fdt_range (concat (fdt_memory e)))"
    by (simp add: r sort_ranges_mset)
  show "length (ranges s2) = length (concat (fdt_memory e))"
    using m by (metis length_map size_mset)
qed

lemma scenario_efi:
  "ram_map_from_efi scenario_env memscav_initial = (Inr (), scenario_map\<lparr>nallocs := 2\<rparr>)"
  by (simp add: scenario_defs ram_map_from_efi_def ram_map_add_def cmp_range_def
      EFI_CONVENTIONAL_MEMORY_def EFI_PAGE_SHIFT_def)

lemma scenario_fdt:
  "ram_map_from_fdt scenario_env memscav_initial = (Inr (), scenario_map\<lparr>nallocs := 2\<rparr>)"
  by (simp add: scenario_defs ram_map_from_fdt_def ram_map_add_def cmp_range_def
      ram_map_from_fdt_node.simps of_property_read_reg_def)

theorem ram_map_sorted_complete_witness:
  "ram_map_from_efi scenario_env memscav_initial = (Inr (), scenario_map\<lparr>nallocs := 2\<rparr>) \<and>
   ram_map_from_fdt scenario_env memscav_initial = (Inr (), scenario_map\<lparr>nallocs := 2\<rparr>) \<and>
   ranges (scenario_map\<lparr>nallocs := 2\<rparr>)
     = [\<lparr>range_start = 0x0, range_end = 0xFFF\<rparr>, \<lparr>range_start = 0x4000, range_end = 0x7FFF\<rparr>] \<and>
   sorted (map range_start (ranges (scenario_map\<lparr>nallocs := 2\<rparr>))) \<and>
   mset (ranges (scenario_map\<lparr>nallocs := 2\<rparr>))
     = mset (map efi_range (filter efi_conventional (efi_memmap scenario_env))) \<and>
   mset (ranges (scenario_map\<lparr>nallocs := 2\<rparr>))
     = mset (map fdt_range (concat (fdt_memory scenario_env)))"
proof -
  have i: "ranges memscav_initial = []"
    by (simp add: memscav_initial_def)
  have r: "ranges (scenario_map\<lparr>nallocs := 2\<rparr>)
     = [\<lparr>range_start = 0x0, range_end = 0xFFF\<rparr>, \<lparr>range_start = 0x4000, range_end = 0x7FFF\<rparr>]"
    by (simp add: scenario_map_def)
  show ?thesis
    using ram_map_sorted_complete [OF i, of scenario_env "scenario_map\<lparr>nallocs := 2\<rparr>"
        "scenario_map\<lparr>nallocs := 2\<rparr>"] scenario_efi scenario_fdt r
    by blast
qed

section \<open>Allocation failure\<close>

text \<open>
  C6. Each of \<open>ram_map_from_efi\<close>, \<open>ram_map_from_fdt\<close> and \<open>find_hidden_blocks\<close> returns
  \<open>-ENOMEM\<close> exactly when one of the allocation requests made during the call was
  refused, and then everything it had accumulated is gone: after a failed build the
  range array is empty, after a failed scan the hidden block list is empty. The builders
  always return; the scan returns (so the statement about it is not empty) at least for
  every range map whose ranges stay clear of the top of the address space.
\<close>

theorem alloc_failure_discards:
  "(ram_map_from_efi e s = (r1, s1) \<longrightarrow>
      (alloc_failed e s s1 \<longleftrightarrow> r1 = Inl ENOMEM) \<and> (alloc_failed e s s1 \<longrightarrow> ranges s1 = [])) \<and>
   (ram_map_from_fdt e s = (r2, s2) \<longrightarrow>
      (alloc_failed e s s2 \<longleftrightarrow> r2 = Inl ENOMEM) \<and> (alloc_failed e s s2 \<longrightarrow> ranges s2 = [])) \<and>
   (find_hidden_blocks e s = Some (r3, s3) \<longrightarrow>
      (alloc_failed e s s3 \<longleftrightarrow> r3 = Inl ENOMEM) \<and>
      (alloc_failed e s s3 \<longrightarrow> hidden_blocks s3 = [])) \<and>
   (block_sz e = 2 ^ k \<and> k < 64 \<and> list_all (range_no_wrap (block_sz e)) (ranges s) \<longrightarrow>
      find_hidden_blocks e s \<noteq> None)"
proof (intro conjI impI)
  assume a: "ram_map_from_efi e s = (r1, s1)"
  have n: "\<not> alloc_failed e s s" by (simp add: alloc_failed_iff)
  show "alloc_failed e s s1 \<longleftrightarrow> r1 = Inl ENOMEM"
    using ram_map_from_efi_outcome [OF a] n by auto
  show "ranges s1 = []" if "alloc_failed e s s1"
    using ram_map_from_efi_outcome [OF a] n that by auto
next
  assume a: "ram_map_from_fdt e s = (r2, s2)"
  show "alloc_failed e s s2 \<longleftrightarrow> r2 = Inl ENOMEM"
    using ram_map_from_fdt_outcome [OF a] by auto
  show "ranges s2 = []" if "alloc_failed e s s2"
    using ram_map_from_fdt_outcome [OF a] that by auto
next
  assume a: "find_hidden_blocks e s = Some (r3, s3)"
  show "alloc_failed e s s3 \<longleftrightarrow> r3 = Inl ENOMEM"
    using find_hidden_blocks_alloc [OF a] by auto
  show "hidden_blocks s3 = []" if "alloc_failed e s s3"
    using find_hidden_blocks_alloc [OF a] that by auto
next
  assume "block_sz e = 2 ^ k \<and> k < 64 \<and> list_all (range_no_wrap (block_sz e)) (ranges s)"
  then show "find_hidden_blocks e s \<noteq> None"
    using find_hidden_blocks_terminates [of e k s] by auto
qed

text \<open>The scenario with the second allocation request refused.\<close>

lemma scenario_efi_nomem:
  "ram_map_from_efi (scenario_env\<lparr>alloc_ok := (\<lambda>n. n \<noteq> 1)\<rparr>) memscav_initial
     = (Inl ENOMEM, memscav_initial\<lparr>nallocs := 2\<rparr>)"
  by (simp add: scenario_defs ram_map_from_efi_def ram_map_add_def ram_map_free_def
      EFI_CONVENTIONAL_MEMORY_def EFI_PAGE_SHIFT_def)

lemma scenario_fdt_nomem:
  "ram_map_from_fdt (scenario_env\<lparr>alloc_ok := (\<lambda>n. n \<noteq> 1)\<rparr>) memscav_initial
     = (Inl ENOMEM, memscav_initial\<lparr>nallocs := 2\<rparr>)"
  by (simp add: scenario_defs ram_map_from_fdt_def ram_map_add_def ram_map_free_def
      ram_map_from_fdt_node.simps of_property_read_reg_def)

lemma scenario_scan_nomem:
  "find_hidden_blocks (scenario_env\<lparr>alloc_ok := (\<lambda>n. n \<noteq> 1)\<rparr>) scenario_map
     = Some (Inl ENOMEM,
         scenario_map\<lparr>nallocs := 2,
           trace := [Region_intersects 0x4000 0x1000, Region_intersects 0x5000 0x1000]\<rparr>)"
  by (simp add: scenario_defs find_hidden_blocks_def ALIGN_def find_hidden_blocks_range.simps
      hidden_block_add_def hidden_blocks_purge.simps hidden_block_free_def)

theorem alloc_failure_discards_witness:
  "ram_map_from_efi (scenario_env\<lparr>alloc_ok := (\<lambda>n. n \<noteq> 1)\<rparr>) memscav_initial
     = (Inl ENOMEM, memscav_initial\<lparr>nallocs := 2\<rparr>) \<and>
   ram_map_from_fdt (scenario_env\<lparr>alloc_ok := (\<lambda>n. n \<noteq> 1)\<rparr>) memscav_initial
     = (Inl ENOMEM, memscav_initial\<lparr>nallocs := 2\<rparr>) \<and>
   alloc_failed (scenario_env\<lparr>alloc_ok := (\<lambda>n. n \<noteq> 1)\<rparr>) memscav_initial
     (memscav_initial\<lparr>nallocs := 2\<rparr>) \<and>
   ranges (memscav_initial\<lparr>nallocs := 2\<rparr>) = [] \<and>
   find_hidden_blocks (scenario_env\<lparr>alloc_ok := (\<lambda>n. n \<noteq> 1)\<rparr>) scenario_map
     = Some (Inl ENOMEM,
         scenario_map\<lparr>nallocs := 2,
           trace := [Region_intersects 0x4000 0x1000, Region_intersects 0x5000 0x1000]\<rparr>) \<and>
   hidden_blocks (scenario_map\<lparr>nallocs := 2,
           trace := [Region_intersects 0x4000 0x1000, Region_intersects 0x5000 0x1000]\<rparr>) = [] \<and>
   find_hidden_blocks scenario_env scenario_map \<noteq> None"
proof -
  let ?e = "scenario_env\<lparr>alloc_ok := (\<lambda>n. n \<noteq> 1)\<rparr>"
  let ?s3 = "scenario_map\<lparr>nallocs := 2,
           trace := [Region_intersects 0x4000 0x1000, Region_intersects 0x5000 0x1000]\<rparr>"
  have t1: "ranges (memscav_initial\<lparr>nallocs := 2\<rparr>) = []" 
     and f1: "alloc_failed ?e memscav_initial (memscav_initial\<lparr>nallocs := 2\<rparr>)"
    using alloc_failure_discards [of ?e memscav_initial "Inl ENOMEM" "memscav_initial\<lparr>nallocs := 2\<rparr>"]
      scenario_efi_nomem by blast+
  have t3: "hidden_blocks ?s3 = []"
    using alloc_failure_discards [of ?e scenario_map _ _ _ _ "Inl ENOMEM" ?s3]
      scenario_scan_nomem by blast
  have b: "block_sz scenario_env = 2 ^ 12 \<and> (12::nat) < 64 \<and>
      list_all (range_no_wrap (block_sz scenario_env)) (ranges scenario_map)"
    by (simp add: scenario_defs range_no_wrap_def)
  have t4: "find_hidden_blocks scenario_env scenario_map \<noteq> None"
    using alloc_failure_discards [of scenario_env scenario_map _ _ _ _ _ _ 12] b by blast
  show ?thesis
    using t1 f1 t3 t4 scenario_efi_nomem scenario_fdt_nomem scenario_scan_nomem by blast
qed

section \<open>The hidden block report\<close>










lemma length_contiguous: "length (contiguous bsz a k) = k"
  by (induction k arbitrary: a) simp_all











end
